theory Spec2Isabelle
  imports Main "HOL-Library.Word"
begin

section \<open>EEPROgraMmer: the host-side protocol engine of \<open>eepro/eepro.py\<close>\<close>

text \<open>
  A shallow embedding of \<^verbatim>\<open>src/eepro/eepro.py\<close>. A Python \<^verbatim>\<open>bytes\<close> object is a
  list of 8-bit words, a Python \<^verbatim>\<open>str\<close> is a \<open>string\<close>, a Python \<^verbatim>\<open>int\<close> is an
  \<open>int\<close>. Exceptions are values of the datatype \<open>error\<close>; a method that can raise
  returns \<open>error + 'a\<close> together with the state it leaves behind. The serial port is a
  record of what the device will deliver and of the calls made on the port. Left out are
  \<^verbatim>\<open>reset\<close> (a timed pulse on a control line), \<^verbatim>\<open>read_file\<close> (it stores the result of
  \<^verbatim>\<open>read_contents\<close> in a file), the progress bars and the command line of \<^verbatim>\<open>main\<close>.
\<close>

subsection \<open>Bytes and text\<close>

type_synonym byte = "8 word"
type_synonym bytes = "byte list"

text \<open>\<^verbatim>\<open>"\n"\<close>, as a character and as a byte.\<close>

definition newline :: char where
  "newline = CHR 0x0A"

definition newline_byte :: byte where
  "newline_byte = 0x0A"

text \<open>\<^verbatim>\<open>str.encode("ascii")\<close> on the ASCII texts the driver sends.\<close>

definition encode_ascii :: "string \<Rightarrow> bytes" where
  "encode_ascii s = map of_char s"

text \<open>
  \<^verbatim>\<open>bytes.decode("ascii")\<close>: a byte above 0x7F raises \<^verbatim>\<open>UnicodeDecodeError\<close>,
  here \<open>None\<close>.
\<close>

definition decode_ascii :: "bytes \<Rightarrow> string option" where
  "decode_ascii bs =
     (if list_all (\<lambda>b. b < 0x80) bs then Some (map (\<lambda>b. char_of (unat b)) bs) else None)"

text \<open>The decimal text of a Python \<^verbatim>\<open>int\<close>, as \<^verbatim>\<open>f"{n}"\<close> prints it.\<close>

fun digits :: "nat \<Rightarrow> string" where
  "digits n =
     (if n < 10 then [''0123456789'' ! n]
      else digits (n div 10) @ [''0123456789'' ! (n mod 10)])"

declare digits.simps [simp del]

definition str_int :: "int \<Rightarrow> string" where
  "str_int i = (if i < 0 then CHR ''-'' # digits (nat (- i)) else digits (nat i))"

text \<open>
  The format specifications \<^verbatim>\<open>{:02X}\<close> and \<^verbatim>\<open>{:04X}\<close> on a non-negative
  \<^verbatim>\<open>int\<close>: upper-case hexadecimal, padded with zeros on the left up to the width
  (and longer than the width when the number needs more digits).
\<close>

fun hex_upper :: "nat \<Rightarrow> string" where
  "hex_upper n =
     (if n < 16 then [''0123456789ABCDEF'' ! n]
      else hex_upper (n div 16) @ [''0123456789ABCDEF'' ! (n mod 16)])"

declare hex_upper.simps [simp del]

definition zero_pad :: "nat \<Rightarrow> string \<Rightarrow> string" where
  "zero_pad w s = replicate (w - length s) CHR ''0'' @ s"

definition fmt_02X :: "nat \<Rightarrow> string" where
  "fmt_02X n = zero_pad 2 (hex_upper n)"

definition fmt_04X :: "nat \<Rightarrow> string" where
  "fmt_04X n = zero_pad 4 (hex_upper n)"

text \<open>
  \<^verbatim>\<open>str.split(sep)\<close> for a one-character separator: the pieces between the
  occurrences of the separator, empty pieces included, so that a string with \<open>k\<close>
  separators has \<open>k + 1\<close> pieces.
\<close>

fun split_from :: "char \<Rightarrow> string \<Rightarrow> string \<Rightarrow> string list" where
  "split_from sep piece [] = [piece]"
| "split_from sep piece (c # cs) =
     (if c = sep then piece # split_from sep [] cs else split_from sep (piece @ [c]) cs)"

definition split_str :: "char \<Rightarrow> string \<Rightarrow> string list" where
  "split_str sep s = split_from sep [] s"

subsection \<open>\<open>format_hex\<close>\<close>

definition chunk_size :: nat where
  "chunk_size = 8"

text \<open>\<^verbatim>\<open>byte = "{:02X} "\<close> and \<^verbatim>\<open>address = "0x{:04X}:    "\<close>.\<close>

definition byte_fmt :: "byte \<Rightarrow> string" where
  "byte_fmt b = fmt_02X (unat b) @ '' ''"

definition address_fmt :: "nat \<Rightarrow> string" where
  "address_fmt i = ''0x'' @ fmt_04X i @ '':    ''"

text \<open>
  The loop \<^verbatim>\<open>for i, in_byte in enumerate(in_bytes)\<close>: \<open>i\<close> is the index of the next
  byte and \<open>formatted_str\<close> the string built so far.
\<close>

fun format_hex_loop :: "nat \<Rightarrow> bytes \<Rightarrow> string \<Rightarrow> string" where
  "format_hex_loop i [] formatted_str = formatted_str"
| "format_hex_loop i (in_byte # rest) formatted_str =
     format_hex_loop (Suc i) rest
       ((if i mod chunk_size = 0 then formatted_str @ [newline] @ address_fmt i
         else if i mod (chunk_size div 2) = 0 then formatted_str @ '' ''
         else formatted_str) @ byte_fmt in_byte)"

definition format_hex :: "bytes \<Rightarrow> string list" where
  "format_hex in_bytes = split_str newline (format_hex_loop 0 in_bytes [])"

text \<open>
  The rows as the specification words them: one row per 8 input bytes, the last one
  possibly shorter, each prefixed with the address of its first byte, the bytes in two
  blocks of 4 separated by a space.
\<close>

definition hex_row :: "nat \<Rightarrow> bytes \<Rightarrow> string" where
  "hex_row a row =
     address_fmt a @ concat (map byte_fmt (take 4 row)) @
     (if 4 < length row then '' '' @ concat (map byte_fmt (drop 4 row)) else [])"

function hex_rows :: "nat \<Rightarrow> bytes \<Rightarrow> string list" where
  "hex_rows a bs =
     (if bs = [] then [] else hex_row a (take 8 bs) # hex_rows (a + 8) (drop 8 bs))"
  by pat_completeness auto
termination
  by (relation "measure (\<lambda>(a, bs). length bs)") auto

declare hex_rows.simps [simp del]

subsection \<open>The escape codec\<close>

text \<open>The class attributes \<^verbatim>\<open>esc_char\<close>, \<^verbatim>\<open>end_char\<close> and \<^verbatim>\<open>ack_char\<close>.\<close>

definition esc_char :: bytes where
  "esc_char = [0x1B]"

definition end_char :: bytes where
  "end_char = [0x04]"

definition ack_char :: bytes where
  "ack_char = [0x06]"

text \<open>
  \<^verbatim>\<open>escape_byte(byte)\<close> takes a \<^verbatim>\<open>bytes\<close> object and compares it as a whole with the
  two control values.
\<close>

definition escape_byte :: "bytes \<Rightarrow> bytes" where
  "escape_byte byte =
     (if byte \<in> set [end_char, esc_char] then esc_char @ byte else byte)"

fun escape_file_contents :: "bytes \<Rightarrow> bytes" where
  "escape_file_contents [] = []"
| "escape_file_contents (byte # contents) =
     escape_byte [byte] @ escape_file_contents contents"

subsection \<open>Exceptions\<close>

text \<open>
  The arguments of an exception are texts. The second argument of the content mismatch
  is \<^verbatim>\<open>"\n".join(difflib.context_diff(a, b, fromfile=f, tofile="EEPROM Contents"))\<close>;
  the library's diff is not unfolded: \<open>ContextDiff a b f\<close> stands for that text.
\<close>

datatype arg = Text string | ContextDiff "string list" "string list" string

datatype error =
    ConnectionError "arg list"
  | AssertionError "arg list"
  | ValueError
  | TypeError
  | IndexError
  | UnicodeDecodeError
  | OSError

text \<open>
  \<^verbatim>\<open>int(response)\<close> on a \<^verbatim>\<open>bytes\<close> object: white space around the literal is
  dropped, a sign may lead, and the digits may be separated by single underscores;
  anything else raises \<^verbatim>\<open>ValueError\<close>, here \<open>None\<close>.
\<close>

definition is_space :: "byte \<Rightarrow> bool" where
  "is_space b = (b \<in> set [0x20, 0x09, 0x0A, 0x0B, 0x0C, 0x0D])"

definition is_digit :: "byte \<Rightarrow> bool" where
  "is_digit b = (0x30 \<le> b \<and> b \<le> 0x39)"

fun digits_val :: "bool \<Rightarrow> nat \<Rightarrow> bytes \<Rightarrow> nat option" where
  "digits_val after_digit acc [] = (if after_digit then Some acc else None)"
| "digits_val after_digit acc (b # bs) =
     (if is_digit b then digits_val True (acc * 10 + (unat b - 0x30)) bs
      else if b = 0x5F \<and> after_digit then digits_val False acc bs
      else None)"

definition strip_space :: "bytes \<Rightarrow> bytes" where
  "strip_space bs = rev (dropWhile is_space (rev (dropWhile is_space bs)))"

definition py_int :: "bytes \<Rightarrow> int option" where
  "py_int response =
     (case strip_space response of
        [] \<Rightarrow> None
      | c # cs \<Rightarrow>
          if c = 0x2D then map_option (\<lambda>n. - int n) (digits_val False 0 cs)
          else if c = 0x2B then map_option int (digits_val False 0 cs)
          else map_option int (digits_val False 0 (c # cs)))"

subsection \<open>Content sources\<close>

text \<open>
  A \<^verbatim>\<open>file\<close> argument is a path (\<^verbatim>\<open>str\<close>) or an open binary file object. A file
  object is an \<^verbatim>\<open>io.BytesIO\<close>: a buffer and a read position. \<^verbatim>\<open>FillBytes\<close> is a
  \<^verbatim>\<open>BytesIO\<close> that remembers its fill byte.
\<close>

record bytes_io =
  buf :: bytes
  pos :: nat

datatype file_arg = Path string | Fill bytes bytes_io | Stream bytes_io

text \<open>\<^verbatim>\<open>BytesIO.read()\<close>: everything from the position on; the position moves to the end.\<close>

definition io_read :: "bytes_io \<Rightarrow> bytes \<times> bytes_io" where
  "io_read f = (drop (pos f) (buf f), f\<lparr>pos := max (pos f) (length (buf f))\<rparr>)"

text \<open>
  \<^verbatim>\<open>FillBytes(fill_byte, length)\<close>: \<^verbatim>\<open>fill_byte * length\<close> repeats a \<^verbatim>\<open>bytes\<close>
  object and is empty for a length below 1.
\<close>

definition FillBytes :: "bytes \<Rightarrow> int \<Rightarrow> file_arg" where
  "FillBytes fill_byte len =
     Fill fill_byte \<lparr>buf = concat (replicate (nat len) fill_byte), pos = 0\<rparr>"

text \<open>\<^verbatim>\<open>FillBytes.__repr__\<close>: \<^verbatim>\<open>self.fill_byte[0]\<close> raises on an empty fill byte.\<close>

definition fill_repr :: "bytes \<Rightarrow> error + string" where
  "fill_repr fill_byte =
     (case fill_byte of
        [] \<Rightarrow> Inl IndexError
      | b # _ \<Rightarrow> Inr (''fill bytes (0x'' @ fmt_02X (unat b) @ '')''))"

text \<open>
  \<^verbatim>\<open>f"{file}"\<close> and \<^verbatim>\<open>repr(file)\<close>. The address inside the text of a plain
  \<^verbatim>\<open>BytesIO\<close> and the escaping that \<^verbatim>\<open>repr\<close> applies inside a path are left out.
\<close>

definition file_str :: "file_arg \<Rightarrow> error + string" where
  "file_str file =
     (case file of
        Path p \<Rightarrow> Inr p
      | Fill fill_byte io \<Rightarrow> fill_repr fill_byte
      | Stream io \<Rightarrow> Inr ''<_io.BytesIO object>'')"

definition file_repr :: "file_arg \<Rightarrow> error + string" where
  "file_repr file =
     (case file of
        Path p \<Rightarrow> Inr (CHR 0x27 # p @ [CHR 0x27])
      | Fill fill_byte io \<Rightarrow> fill_repr fill_byte
      | Stream io \<Rightarrow> Inr ''<_io.BytesIO object>'')"

text \<open>
  The first lines of \<^verbatim>\<open>write_file\<close> and \<^verbatim>\<open>verify_file\<close>: a path is opened and read
  (\<open>fs\<close> maps the paths that exist to their contents), a file object is read from its
  position and left at its end.
\<close>

definition read_raw_content :: "(string \<Rightarrow> bytes option) \<Rightarrow> file_arg \<Rightarrow> (error + bytes) \<times> file_arg" where
  "read_raw_content fs file =
     (case file of
        Path p \<Rightarrow> (case fs p of None \<Rightarrow> (Inl OSError, file) | Some c \<Rightarrow> (Inr c, file))
      | Fill fill_byte io \<Rightarrow> (case io_read io of (c, io') \<Rightarrow> (Inr c, Fill fill_byte io'))
      | Stream io \<Rightarrow> (case io_read io of (c, io') \<Rightarrow> (Inr c, Stream io')))"

subsection \<open>The byte transport\<close>

text \<open>
  The serial port as the driver sees it. \<open>rx\<close> is what the device will deliver, in
  order: \<open>Some b\<close> is a byte, \<open>None\<close> is a read timeout that passes with no byte; once
  \<open>rx\<close> is empty the device stays silent and every read times out. \<open>trace\<close> logs the
  calls the driver makes on the port. \<^verbatim>\<open>write\<close> and \<^verbatim>\<open>flush\<close> return nothing the driver
  reads; a port that is closed or unplugged under the driver is outside the model.
\<close>

datatype event = Write bytes | Flush | Read bytes | ReadLine bytes

record transport =
  rx :: "byte option list"
  trace :: "event list"

definition ser_write :: "transport \<Rightarrow> bytes \<Rightarrow> transport" where
  "ser_write t data = t\<lparr>trace := trace t @ [Write data]\<rparr>"

definition ser_flush :: "transport \<Rightarrow> transport" where
  "ser_flush t = t\<lparr>trace := trace t @ [Flush]\<rparr>"

text \<open>\<^verbatim>\<open>read()\<close>: one byte, or \<^verbatim>\<open>b""\<close> after the timeout.\<close>

definition ser_read :: "transport \<Rightarrow> bytes \<times> transport" where
  "ser_read t =
     (case rx t of
        [] \<Rightarrow> ([], t\<lparr>trace := trace t @ [Read []]\<rparr>)
      | None # r \<Rightarrow> ([], t\<lparr>rx := r, trace := trace t @ [Read []]\<rparr>)
      | Some b # r \<Rightarrow> ([b], t\<lparr>rx := r, trace := trace t @ [Read [b]]\<rparr>))"

text \<open>
  \<^verbatim>\<open>readline()\<close>: bytes up to and including the first newline, or up to the first
  timeout.
\<close>

fun take_line :: "byte option list \<Rightarrow> bytes \<times> byte option list" where
  "take_line [] = ([], [])"
| "take_line (None # r) = ([], r)"
| "take_line (Some b # r) =
     (if b = newline_byte then ([b], r)
      else (case take_line r of (line, r') \<Rightarrow> (b # line, r')))"

definition ser_readline :: "transport \<Rightarrow> bytes \<times> transport" where
  "ser_readline t =
     (case take_line (rx t) of
        (line, r) \<Rightarrow> (line, t\<lparr>rx := r, trace := trace t @ [ReadLine line]\<rparr>))"

subsection \<open>The acknowledged link\<close>

function flush_read_buffer_loop :: "transport \<Rightarrow> bytes \<Rightarrow> bytes \<times> transport" where
  "flush_read_buffer_loop t content =
     (case ser_readline t of
        (line, t') \<Rightarrow>
          if line = [] then (content, t') else flush_read_buffer_loop t' (content @ line))"
  by pat_completeness auto
termination
proof (relation "measure (\<lambda>(t, content). length (rx t))")
  show "wf (measure (\<lambda>(t, content). length (rx t)))"
    by simp
next
  fix t :: transport and content line t'
  assume p: "(line, t') = ser_readline t" and ne: "line \<noteq> []"
  have consumed: "length (fst (take_line r)) + length (snd (take_line r)) \<le> length r" for r
    by (induction r rule: take_line.induct) (auto split: prod.splits)
  from p have line: "line = fst (take_line (rx t))" and rest: "rx t' = snd (take_line (rx t))"
    by (auto simp: ser_readline_def split: prod.splits)
  from ne line have "0 < length (fst (take_line (rx t)))"
    by simp
  with consumed [of "rx t"] have "length (snd (take_line (rx t))) < length (rx t)"
    by linarith
  with rest have "length (rx t') < length (rx t)"
    by simp
  then show "((t', content @ line), (t, content)) \<in> measure (\<lambda>(t, content). length (rx t))"
    by simp
qed

definition flush_read_buffer :: "transport \<Rightarrow> bytes \<times> transport" where
  "flush_read_buffer t = flush_read_buffer_loop t []"

definition acknowledged_write :: "transport \<Rightarrow> bytes \<Rightarrow> (error + unit) \<times> transport" where
  "acknowledged_write t byte =
     (case ser_read (ser_flush (ser_write t byte)) of
        (response, t1) \<Rightarrow>
          if response \<noteq> ack_char then
            (case flush_read_buffer t1 of
               (residue, t2) \<Rightarrow>
                 (case decode_ascii residue of
                    None \<Rightarrow> (Inl UnicodeDecodeError, t2)
                  | Some text \<Rightarrow>
                      (Inl (ConnectionError
                         [Text ''Programmer did not acknowledge write'', Text text]), t2)))
          else (Inr (), t1))"

subsection \<open>The command framer\<close>

text \<open>
  The loop \<^verbatim>\<open>for byte in escaped_content: self.acknowledged_write(bytes([byte]))\<close>;
  the first send that raises ends it.
\<close>

fun write_escaped :: "transport \<Rightarrow> bytes \<Rightarrow> (error + unit) \<times> transport" where
  "write_escaped t [] = (Inr (), t)"
| "write_escaped t (byte # rest) =
     (case acknowledged_write t [byte] of
        (Inl e, t') \<Rightarrow> (Inl e, t')
      | (Inr _, t') \<Rightarrow> write_escaped t' rest)"

text \<open>
  \<^verbatim>\<open>write_file(file, start_address)\<close>. The result carries the file object as the call
  leaves it, and the port. The progress bar needs the text of \<^verbatim>\<open>f"writing {file}"\<close>.
\<close>

definition write_file ::
  "(string \<Rightarrow> bytes option) \<Rightarrow> file_arg \<Rightarrow> int \<Rightarrow> transport \<Rightarrow> (error + unit) \<times> file_arg \<times> transport" where
  "write_file fs file start_address t =
     (case acknowledged_write t (encode_ascii ''w '') of
        (Inl e, t1) \<Rightarrow> (Inl e, file, t1)
      | (Inr _, t1) \<Rightarrow>
     (case acknowledged_write t1 (encode_ascii (str_int start_address)) of
        (Inl e, t2) \<Rightarrow> (Inl e, file, t2)
      | (Inr _, t2) \<Rightarrow>
     (case read_raw_content fs file of
        (Inl e, file') \<Rightarrow> (Inl e, file', t2)
      | (Inr raw_content, file') \<Rightarrow>
     (case file_str file' of
        Inl e \<Rightarrow> (Inl e, file', t2)
      | Inr desc \<Rightarrow>
     (case write_escaped t2 (escape_file_contents raw_content) of
        (Inl e, t3) \<Rightarrow> (Inl e, file', t3)
      | (Inr _, t3) \<Rightarrow>
     (case acknowledged_write t3 end_char of
        (Inl e, t4) \<Rightarrow> (Inl e, file', t4)
      | (Inr _, t4) \<Rightarrow>
     (case ser_readline t4 of
        (response, t5) \<Rightarrow>
     (case py_int response of
        None \<Rightarrow> (Inl ValueError, file', t5)
      | Some bytes_written \<Rightarrow>
          if bytes_written \<noteq> int (length raw_content) then
            (Inl (AssertionError
               [Text (''written '' @ str_int bytes_written @ '' bytes, expected '' @
                      str_int (int (length raw_content)))]), file', t5)
          else (Inr (), file', t5)))))))))"

text \<open>\<^verbatim>\<open>fill(fill_byte, length, start_address)\<close>.\<close>

definition fill ::
  "(string \<Rightarrow> bytes option) \<Rightarrow> bytes \<Rightarrow> int \<Rightarrow> int \<Rightarrow> transport \<Rightarrow> (error + unit) \<times> transport" where
  "fill fs fill_byte len start_address t =
     (case write_file fs (FillBytes fill_byte len) start_address t of
        (r, dummy_file, t') \<Rightarrow> (r, t'))"

text \<open>
  The \<^verbatim>\<open>while True\<close> loop of \<^verbatim>\<open>read_contents\<close>. Nothing bounds it, so the result is
  an option: \<open>None\<close> is a loop that never returns.
\<close>

partial_function (option) read_loop ::
  "transport \<Rightarrow> bytes \<Rightarrow> ((error + bytes) \<times> transport) option" where
  "read_loop t content =
     (case ser_read t of
        (char, t1) \<Rightarrow>
          if char = end_char then
            (case ser_readline t1 of
               (response, t2) \<Rightarrow>
                 (case py_int response of
                    None \<Rightarrow> Some (Inl ValueError, t2)
                  | Some bytes_read \<Rightarrow>
                      if bytes_read \<noteq> int (length (escape_file_contents content)) then
                        Some (Inl (AssertionError
                          [Text (''read '' @ str_int (int (length (escape_file_contents content))) @
                                 '' bytes, expected '' @ str_int bytes_read)]), t2)
                      else Some (Inr content, t2)))
          else if char = esc_char then
            (case ser_read t1 of
               (char', t2) \<Rightarrow>
                 if char' \<notin> set [end_char, esc_char] then
                   Some (Inl (AssertionError [Text ''Invalid escape sequence received'']), t2)
                 else read_loop t2 (content @ char'))
          else read_loop t1 (content @ char))"

declare read_loop.simps [code]

definition read_contents ::
  "int \<Rightarrow> int \<Rightarrow> transport \<Rightarrow> ((error + bytes) \<times> transport) option" where
  "read_contents start_address len t =
     (case acknowledged_write t (encode_ascii ''r '') of
        (Inl e, t1) \<Rightarrow> Some (Inl e, t1)
      | (Inr _, t1) \<Rightarrow>
     (case acknowledged_write t1 (encode_ascii (str_int start_address)) of
        (Inl e, t2) \<Rightarrow> Some (Inl e, t2)
      | (Inr _, t2) \<Rightarrow>
     (case acknowledged_write t2 (encode_ascii (str_int len)) of
        (Inl e, t3) \<Rightarrow> Some (Inl e, t3)
      | (Inr _, t3) \<Rightarrow> read_loop t3 [])))"

subsection \<open>The verifier\<close>

definition verify_file ::
  "(string \<Rightarrow> bytes option) \<Rightarrow> file_arg \<Rightarrow> int \<Rightarrow> transport \<Rightarrow>
     ((error + unit) \<times> file_arg \<times> transport) option" where
  "verify_file fs file start_address t =
     (case read_raw_content fs file of
        (Inl e, file') \<Rightarrow> Some (Inl e, file', t)
      | (Inr raw_content, file') \<Rightarrow>
     (case read_contents start_address (int (length raw_content)) t of
        None \<Rightarrow> None
      | Some (Inl e, t') \<Rightarrow> Some (Inl e, file', t')
      | Some (Inr eeprom_content, t') \<Rightarrow>
          if raw_content \<noteq> eeprom_content then
            (case file_repr file' of
               Inl e \<Rightarrow> Some (Inl e, file', t')
             | Inr name \<Rightarrow>
                 Some (Inl (AssertionError
                   [Text ''Contents do not match input file'',
                    ContextDiff (format_hex raw_content) (format_hex eeprom_content) name]),
                   file', t'))
          else Some (Inr (), file', t')))"

text \<open>
  \<^verbatim>\<open>{fill_byte:02X}\<close> inside the f-string of \<^verbatim>\<open>check_filled\<close> formats \<^verbatim>\<open>fill_byte\<close>,
  a \<^verbatim>\<open>bytes\<close> object, with the specification \<^verbatim>\<open>02X\<close>. \<^verbatim>\<open>bytes\<close> inherits
  \<^verbatim>\<open>object.__format__\<close>, which raises \<^verbatim>\<open>TypeError\<close> on every specification that
  is not empty.
\<close>

definition format_bytes_02X :: "bytes \<Rightarrow> error + string" where
  "format_bytes_02X fill_byte = Inl TypeError"

text \<open>\<^verbatim>\<open>err.args[1]\<close>.\<close>

definition second_arg :: "arg list \<Rightarrow> error + arg" where
  "second_arg args = (case args of a # b # _ \<Rightarrow> Inr b | _ \<Rightarrow> Inl IndexError)"

text \<open>
  \<^verbatim>\<open>check_filled(fill_byte, length, start_address)\<close>: the handler of
  \<^verbatim>\<open>except AssertionError as err\<close> builds the message first, then reads
  \<^verbatim>\<open>err.args[1]\<close>, then raises.
\<close>

definition check_filled ::
  "(string \<Rightarrow> bytes option) \<Rightarrow> bytes \<Rightarrow> int \<Rightarrow> int \<Rightarrow> transport \<Rightarrow>
     ((error + unit) \<times> transport) option" where
  "check_filled fs fill_byte len start_address t =
     (case verify_file fs (FillBytes fill_byte len) start_address t of
        None \<Rightarrow> None
      | Some (Inl (AssertionError args), dummy_file, t') \<Rightarrow>
          (case format_bytes_02X fill_byte of
             Inl e \<Rightarrow> Some (Inl e, t')
           | Inr hex \<Rightarrow>
               (case second_arg args of
                  Inl e \<Rightarrow> Some (Inl e, t')
                | Inr report \<Rightarrow>
                    Some (Inl (AssertionError
                      [Text (''EEPROM is not filled with 0x'' @ hex), report]), t')))
      | Some (r, dummy_file, t') \<Rightarrow> Some (r, t'))"

subsection \<open>Reading the log of the port\<close>

text \<open>The chunks handed to \<^verbatim>\<open>write\<close>, in order.\<close>

fun writes_of :: "event list \<Rightarrow> bytes list" where
  "writes_of [] = []"
| "writes_of (Write data # es) = data # writes_of es"
| "writes_of (e # es) = writes_of es"

text \<open>
  \<open>acked_sends pending es\<close>: no \<^verbatim>\<open>write\<close> in \<open>es\<close> happens while an earlier one still
  waits for its acknowledgement. A \<^verbatim>\<open>write\<close> makes the link pending; a \<^verbatim>\<open>read\<close>
  that returns \<open>ack_char\<close> clears it. \<open>pending_after\<close> is the state the log ends in.
\<close>

fun acked_sends :: "bool \<Rightarrow> event list \<Rightarrow> bool" where
  "acked_sends pending [] = True"
| "acked_sends pending (Write data # es) = (\<not> pending \<and> acked_sends True es)"
| "acked_sends pending (Read response # es) = acked_sends (pending \<and> response \<noteq> ack_char) es"
| "acked_sends pending (e # es) = acked_sends pending es"

fun pending_after :: "bool \<Rightarrow> event list \<Rightarrow> bool" where
  "pending_after pending [] = pending"
| "pending_after pending (Write data # es) = pending_after True es"
| "pending_after pending (Read response # es) = pending_after (pending \<and> response \<noteq> ack_char) es"
| "pending_after pending (e # es) = pending_after pending es"

text \<open>
  \<open>chunks_acked shape es\<close>: the log \<open>es\<close>, started on an idle link, never writes while
  an earlier chunk waits for its acknowledgement, and every chunk written has the shape.
\<close>

definition chunks_acked :: "(bytes \<Rightarrow> bool) \<Rightarrow> event list \<Rightarrow> bool" where
  "chunks_acked shape es = (acked_sends False es \<and> list_all shape (writes_of es))"

text \<open>Every \<^verbatim>\<open>write\<close> of the log carries exactly one byte.\<close>

definition single_byte_writes :: "event list \<Rightarrow> bool" where
  "single_byte_writes es = list_all (\<lambda>data. length data = 1) (writes_of es)"

text \<open>
  What the device delivers in the data phase of a read, seen from outside the loop: an
  unescaped \<open>END\<close>, or before it an \<open>ESCAPE\<close> that is not followed at once by \<open>END\<close> or
  \<open>ESCAPE\<close>, or neither before the device goes silent.
\<close>

datatype delivery = End_delivered | Bad_escape | Silence

fun delivered :: "byte option list \<Rightarrow> delivery" where
  "delivered [] = Silence"
| "delivered (None # r) = delivered r"
| "delivered (Some b # r) =
     (if b = 0x04 then End_delivered
      else if b = 0x1B then
        (case r of
           [] \<Rightarrow> Bad_escape
         | None # r' \<Rightarrow> Bad_escape
         | Some c # r' \<Rightarrow> if c = 0x04 \<or> c = 0x1B then delivered r' else Bad_escape)
      else delivered r)"

section \<open>Properties\<close>

subsection \<open>One turn of the read loop\<close>

lemma ser_read_Some: "rx t = Some b # r \<Longrightarrow> ser_read t = ([b], t\<lparr>rx := r, trace := trace t @ [Read [b]]\<rparr>)"
  by (simp add: ser_read_def)

lemma ser_read_None: "rx t = None # r \<Longrightarrow> ser_read t = ([], t\<lparr>rx := r, trace := trace t @ [Read []]\<rparr>)"
  by (simp add: ser_read_def)

lemma ser_read_Nil: "rx t = [] \<Longrightarrow> ser_read t = ([], t\<lparr>trace := trace t @ [Read []]\<rparr>)"
  by (simp add: ser_read_def)

lemma read_loop_plain:
  "rx t = Some b # r \<Longrightarrow> b \<noteq> 0x04 \<Longrightarrow> b \<noteq> 0x1B \<Longrightarrow>
   read_loop t content = read_loop (t\<lparr>rx := r, trace := trace t @ [Read [b]]\<rparr>) (content @ [b])"
  by (subst read_loop.simps) (simp add: ser_read_Some end_char_def esc_char_def)

lemma read_loop_escape:
  "rx t = Some 0x1B # Some b # r \<Longrightarrow> b = 0x04 \<or> b = 0x1B \<Longrightarrow>
   read_loop t content =
   read_loop (t\<lparr>rx := r, trace := trace t @ [Read [0x1B], Read [b]]\<rparr>) (content @ [b])"
  by (subst read_loop.simps) (auto simp add: ser_read_Some end_char_def esc_char_def)

lemma read_loop_timeout:
  "rx t = None # r \<Longrightarrow>
   read_loop t content = read_loop (t\<lparr>rx := r, trace := trace t @ [Read []]\<rparr>) content"
  by (subst read_loop.simps) (simp add: ser_read_None end_char_def esc_char_def)

lemma read_loop_silent:
  "rx t = [] \<Longrightarrow>
   read_loop t content = read_loop (t\<lparr>trace := trace t @ [Read []]\<rparr>) content"
  by (subst read_loop.simps) (simp add: ser_read_Nil end_char_def esc_char_def)

lemma read_loop_bad_escape:
  "rx t = Some 0x1B # r \<Longrightarrow> \<not> (\<exists>c r'. r = Some c # r' \<and> (c = 0x04 \<or> c = 0x1B)) \<Longrightarrow>
   \<exists>t'. read_loop t content = Some (Inl (AssertionError [Text ''Invalid escape sequence received'']), t')"
  by (subst read_loop.simps)
     (auto simp add: ser_read_def end_char_def esc_char_def split: list.splits option.splits if_splits)

lemma read_loop_end:
  "rx t = Some 0x04 # rest \<Longrightarrow>
   read_loop t content =
     (case py_int (fst (take_line rest)) of
        None \<Rightarrow> Some (Inl ValueError,
          t\<lparr>rx := snd (take_line rest), trace := trace t @ [Read [0x04], ReadLine (fst (take_line rest))]\<rparr>)
      | Some bytes_read \<Rightarrow>
          Some (if bytes_read \<noteq> int (length (escape_file_contents content)) then
             Inl (AssertionError
               [Text (''read '' @ str_int (int (length (escape_file_contents content))) @
                      '' bytes, expected '' @ str_int bytes_read)])
           else Inr content,
           t\<lparr>rx := snd (take_line rest), trace := trace t @ [Read [0x04], ReadLine (fst (take_line rest))]\<rparr>))"
  by (subst read_loop.simps)
     (simp add: ser_read_Some ser_readline_def end_char_def split: prod.splits option.splits)

lemma read_loop_wire:
  "rx t = map Some (escape_file_contents S) @ r \<Longrightarrow>
   read_loop t content =
   read_loop (t\<lparr>rx := r, trace := trace t @ map (\<lambda>b. Read [b]) (escape_file_contents S)\<rparr>) (content @ S)"
proof (induction S arbitrary: t content)
  case Nil
  then have "t\<lparr>rx := r, trace := trace t @ map (\<lambda>b. Read [b]) (escape_file_contents [])\<rparr> = t"
    by (cases t) simp
  then show ?case by simp
next
  case (Cons b S)
  show ?case
  proof (cases "b = 0x04 \<or> b = 0x1B")
    case True
    with Cons.prems have rx: "rx t = Some 0x1B # Some b # map Some (escape_file_contents S) @ r"
      by (auto simp: escape_byte_def end_char_def esc_char_def)
    let ?t = "t\<lparr>rx := map Some (escape_file_contents S) @ r, trace := trace t @ [Read [0x1B], Read [b]]\<rparr>"
    have "read_loop t content = read_loop ?t (content @ [b])"
      using rx True by (rule read_loop_escape)
    also have "\<dots> = read_loop (?t\<lparr>rx := r, trace := trace ?t @ map (\<lambda>b. Read [b]) (escape_file_contents S)\<rparr>) ((content @ [b]) @ S)"
      by (rule Cons.IH) simp
    finally show ?thesis using True
      by (auto simp: escape_byte_def end_char_def esc_char_def)
  next
    case False
    with Cons.prems have rx: "rx t = Some b # map Some (escape_file_contents S) @ r"
      by (auto simp: escape_byte_def end_char_def esc_char_def)
    let ?t = "t\<lparr>rx := map Some (escape_file_contents S) @ r, trace := trace t @ [Read [b]]\<rparr>"
    have "read_loop t content = read_loop ?t (content @ [b])"
      using rx False by (intro read_loop_plain) auto
    also have "\<dots> = read_loop (?t\<lparr>rx := r, trace := trace ?t @ map (\<lambda>b. Read [b]) (escape_file_contents S)\<rparr>) ((content @ [b]) @ S)"
      by (rule Cons.IH) simp
    finally show ?thesis using False
      by (auto simp: escape_byte_def end_char_def esc_char_def)
  qed
qed

lemma read_loop_terminates_delivered:
  assumes "read_loop t content = Some res"
  shows "delivered (rx t) \<noteq> Silence"
  using assms
proof (induction rule: read_loop.raw_induct [rotated 1, consumes 1])
  case (1 loop t content res)
  show ?case
  proof (cases "rx t")
    case Nil
    with 1(2) have "loop (t\<lparr>trace := trace t @ [Read []]\<rparr>) content = Some res"
      by (simp add: ser_read_Nil end_char_def esc_char_def)
    from 1(1) [OF this] Nil show ?thesis by simp
  next
    case (Cons x r)
    show ?thesis
    proof (cases x)
      case None
      with Cons 1(2) have "loop (t\<lparr>rx := r, trace := trace t @ [Read []]\<rparr>) content = Some res"
        by (simp add: ser_read_None end_char_def esc_char_def)
      from 1(1) [OF this] Cons None show ?thesis by simp
    next
      case (Some b)
      show ?thesis
      proof (cases "b = 0x04")
        case True
        with Cons Some show ?thesis by simp
      next
        case not_end: False
        show ?thesis
        proof (cases "b = 0x1B")
          case True
          show ?thesis
          proof (cases "\<exists>c r'. r = Some c # r' \<and> (c = 0x04 \<or> c = 0x1B)")
            case True
            then obtain c r' where r: "r = Some c # r'" and c: "c = 0x04 \<or> c = 0x1B"
              by blast
            with Cons Some \<open>b = 0x1B\<close> 1(2)
            have "loop (t\<lparr>rx := r', trace := trace t @ [Read [0x1B], Read [c]]\<rparr>) (content @ [c]) = Some res"
              by (auto simp add: ser_read_def end_char_def esc_char_def)
            from 1(1) [OF this] Cons Some \<open>b = 0x1B\<close> r c show ?thesis by auto
          next
            case False
            with Cons Some \<open>b = 0x1B\<close> show ?thesis
              by (auto split: list.splits option.splits)
          qed
        next
          case False
          with Cons Some not_end 1(2)
          have "loop (t\<lparr>rx := r, trace := trace t @ [Read [b]]\<rparr>) (content @ [b]) = Some res"
            by (simp add: ser_read_Some end_char_def esc_char_def)
          from 1(1) [OF this] Cons Some not_end False show ?thesis by simp
        qed
      qed
    qed
  qed
qed

lemma read_loop_delivered_terminates:
  "delivered r \<noteq> Silence \<Longrightarrow> rx t = r \<Longrightarrow> \<exists>res. read_loop t content = Some res"
proof (induction r arbitrary: t content rule: delivered.induct)
  case 1
  then show ?case by simp
next
  case (2 r)
  from 2(3) have "read_loop t content = read_loop (t\<lparr>rx := r, trace := trace t @ [Read []]\<rparr>) content"
    by (intro read_loop_timeout) simp
  moreover from 2(2) have "\<exists>res. read_loop (t\<lparr>rx := r, trace := trace t @ [Read []]\<rparr>) content = Some res"
    by (intro "2.IH") auto
  ultimately show ?case by simp
next
  case (3 b r)
  show ?case
  proof (cases "b = 0x04")
    case True
    with 3(4) show ?thesis
      by (simp add: read_loop_end split: option.splits)
  next
    case not_end: False
    show ?thesis
    proof (cases "b = 0x1B")
      case True
      show ?thesis
      proof (cases "\<exists>c r'. r = Some c # r' \<and> (c = 0x04 \<or> c = 0x1B)")
        case True
        then obtain c r' where r: "r = Some c # r'" and c: "c = 0x04 \<or> c = 0x1B"
          by blast
        from 3(4) r \<open>b = 0x1B\<close> c
        have "read_loop t content = read_loop (t\<lparr>rx := r', trace := trace t @ [Read [0x1B], Read [c]]\<rparr>) (content @ [c])"
          by (intro read_loop_escape) auto
        moreover have "\<exists>res. read_loop (t\<lparr>rx := r', trace := trace t @ [Read [0x1B], Read [c]]\<rparr>) (content @ [c]) = Some res"
          using 3(3) not_end \<open>b = 0x1B\<close> r c
          by (intro "3.IH"(1) [of "Some c" r' c]) auto
        ultimately show ?thesis by simp
      next
        case False
        with read_loop_bad_escape [of t r content] 3(4) \<open>b = 0x1B\<close> show ?thesis
          by auto
      qed
    next
      case False
      from 3(4) not_end False
      have "read_loop t content = read_loop (t\<lparr>rx := r, trace := trace t @ [Read [b]]\<rparr>) (content @ [b])"
        by (intro read_loop_plain) auto
      moreover have "\<exists>res. read_loop (t\<lparr>rx := r, trace := trace t @ [Read [b]]\<rparr>) (content @ [b]) = Some res"
        using 3(3) not_end False by (intro "3.IH"(2)) auto
      ultimately show ?thesis by simp
    qed
  qed
qed

lemma read_loop_delivered_bad:
  "delivered r = Bad_escape \<Longrightarrow> rx t = r \<Longrightarrow>
   \<exists>t'. read_loop t content = Some (Inl (AssertionError [Text ''Invalid escape sequence received'']), t')"
proof (induction r arbitrary: t content rule: delivered.induct)
  case 1
  then show ?case by simp
next
  case (2 r)
  from 2(3) have "read_loop t content = read_loop (t\<lparr>rx := r, trace := trace t @ [Read []]\<rparr>) content"
    by (intro read_loop_timeout) simp
  moreover from 2(2)
  have "\<exists>t'. read_loop (t\<lparr>rx := r, trace := trace t @ [Read []]\<rparr>) content =
      Some (Inl (AssertionError [Text ''Invalid escape sequence received'']), t')"
    by (intro "2.IH") auto
  ultimately show ?case by simp
next
  case (3 b r)
  from 3(3) have not_end: "b \<noteq> 0x04"
    by (auto split: if_splits)
  show ?case
  proof (cases "b = 0x1B")
    case True
    show ?thesis
    proof (cases "\<exists>c r'. r = Some c # r' \<and> (c = 0x04 \<or> c = 0x1B)")
      case True
      then obtain c r' where r: "r = Some c # r'" and c: "c = 0x04 \<or> c = 0x1B"
        by blast
      from 3(4) r \<open>b = 0x1B\<close> c
      have "read_loop t content =
          read_loop (t\<lparr>rx := r', trace := trace t @ [Read [0x1B], Read [c]]\<rparr>) (content @ [c])"
        by (intro read_loop_escape) auto
      moreover
      have "\<exists>t'. read_loop (t\<lparr>rx := r', trace := trace t @ [Read [0x1B], Read [c]]\<rparr>) (content @ [c]) =
          Some (Inl (AssertionError [Text ''Invalid escape sequence received'']), t')"
        using 3(3) not_end \<open>b = 0x1B\<close> r c
        by (intro "3.IH"(1) [of "Some c" r' c]) auto
      ultimately show ?thesis by simp
    next
      case False
      with read_loop_bad_escape [of t r content] 3(4) \<open>b = 0x1B\<close> show ?thesis
        by auto
    qed
  next
    case False
    from 3(4) not_end False
    have "read_loop t content = read_loop (t\<lparr>rx := r, trace := trace t @ [Read [b]]\<rparr>) (content @ [b])"
      by (intro read_loop_plain) auto
    moreover
    have "\<exists>t'. read_loop (t\<lparr>rx := r, trace := trace t @ [Read [b]]\<rparr>) (content @ [b]) =
        Some (Inl (AssertionError [Text ''Invalid escape sequence received'']), t')"
      using 3(3) not_end False by (intro "3.IH"(2)) auto
    ultimately show ?thesis by simp
  qed
qed

lemma py_int_3: "py_int [0x33, 0x0A] = Some 3"
  by (simp add: py_int_def strip_space_def is_space_def is_digit_def)

lemma py_int_2: "py_int [0x32, 0x0A] = Some 2"
  by (simp add: py_int_def strip_space_def is_space_def is_digit_def)

lemma py_int_1: "py_int [0x31, 0x0A] = Some 1"
  by (simp add: py_int_def strip_space_def is_space_def is_digit_def)

subsection \<open>The escape codec\<close>

text \<open>
  Claim C3. A byte other than \<open>ESCAPE\<close> (0x1B) and \<open>END\<close> (0x04) escapes to itself, one
  byte; \<open>ESCAPE\<close> and \<open>END\<close> escape to \<open>ESCAPE\<close> followed by the byte; and
  \<open>escape_file_contents\<close> escapes byte by byte and concatenates the results in the order
  of the input.
\<close>

theorem escape_codec:
  "escape_byte [b] = (if b = 0x1B \<or> b = 0x04 then [0x1B, b] else [b]) \<and>
   escape_file_contents bs = concat (map (\<lambda>b. escape_byte [b]) bs)"
proof
  show "escape_byte [b] = (if b = 0x1B \<or> b = 0x04 then [0x1B, b] else [b])"
    by (auto simp: escape_byte_def esc_char_def end_char_def)
  show "escape_file_contents bs = concat (map (\<lambda>b. escape_byte [b]) bs)"
    by (induction bs) simp_all
qed

theorem escape_codec_witness:
  "escape_byte [0x04] = [0x1B, 0x04] \<and> escape_byte [0x41] = [0x41] \<and>
   escape_file_contents [0x41, 0x04, 0x1B] = [0x41, 0x1B, 0x04, 0x1B, 0x1B]"
  using escape_codec [where b = "0x04" and bs = "[0x41, 0x04, 0x1B]"]
    escape_codec [where b = "0x41" and bs = "[]"]
  by (simp add: escape_byte_def esc_char_def end_char_def)

text \<open>
  Claim C2. For every byte sequence \<open>S\<close>, the read loop fed with
  \<open>escape_file_contents S\<close> has appended exactly \<open>S\<close> to its output when the wire image
  is consumed, whatever follows; and when \<open>END\<close> and a count line that agrees follow, the
  loop returns exactly \<open>S\<close>.
\<close>

theorem read_loop_roundtrip:
  "read_loop (t\<lparr>rx := map Some (escape_file_contents S) @ r\<rparr>) content =
     read_loop (t\<lparr>rx := r, trace := trace t @ map (\<lambda>b. Read [b]) (escape_file_contents S)\<rparr>)
       (content @ S) \<and>
   (py_int (fst (take_line rest)) = Some (int (length (escape_file_contents S))) \<longrightarrow>
    read_loop (t\<lparr>rx := map Some (escape_file_contents S) @ Some 0x04 # rest\<rparr>) [] =
      Some (Inr S,
        t\<lparr>rx := snd (take_line rest),
          trace := trace t @ map (\<lambda>b. Read [b]) (escape_file_contents S) @
                   [Read [0x04], ReadLine (fst (take_line rest))]\<rparr>))"
proof (intro conjI impI)
  show wire: "read_loop (t\<lparr>rx := map Some (escape_file_contents S) @ r\<rparr>) content =
     read_loop (t\<lparr>rx := r, trace := trace t @ map (\<lambda>b. Read [b]) (escape_file_contents S)\<rparr>)
       (content @ S)" for r content
    using read_loop_wire [of "t\<lparr>rx := map Some (escape_file_contents S) @ r\<rparr>" S r content]
    by simp
  assume count: "py_int (fst (take_line rest)) = Some (int (length (escape_file_contents S)))"
  let ?t = "t\<lparr>rx := Some 0x04 # rest, trace := trace t @ map (\<lambda>b. Read [b]) (escape_file_contents S)\<rparr>"
  have "read_loop (t\<lparr>rx := map Some (escape_file_contents S) @ Some 0x04 # rest\<rparr>) [] =
      read_loop ?t ([] @ S)"
    by (rule wire)
  also have "\<dots> = Some (Inr S,
        t\<lparr>rx := snd (take_line rest),
          trace := trace t @ map (\<lambda>b. Read [b]) (escape_file_contents S) @
                   [Read [0x04], ReadLine (fst (take_line rest))]\<rparr>)"
    using count by (simp add: read_loop_end [of ?t rest])
  finally show "read_loop (t\<lparr>rx := map Some (escape_file_contents S) @ Some 0x04 # rest\<rparr>) [] =
      Some (Inr S,
        t\<lparr>rx := snd (take_line rest),
          trace := trace t @ map (\<lambda>b. Read [b]) (escape_file_contents S) @
                   [Read [0x04], ReadLine (fst (take_line rest))]\<rparr>)" .
qed

theorem read_loop_roundtrip_witness:
  "read_loop \<lparr>rx = map Some [0x41, 0x1B, 0x04, 0x04, 0x33, 0x0A], trace = []\<rparr> [] =
     Some (Inr [0x41, 0x04],
       \<lparr>rx = [], trace = [Read [0x41], Read [0x1B], Read [0x04], Read [0x04], ReadLine [0x33, 0x0A]]\<rparr>)"
  using read_loop_roundtrip [where t = "\<lparr>rx = [], trace = []\<rparr>" and S = "[0x41, 0x04]"
      and r = "[]" and content = "[]" and rest = "map Some [0x33, 0x0A]"]
  by (simp add: escape_byte_def esc_char_def end_char_def newline_byte_def py_int_3)

text \<open>
  Claim C4. Once \<open>END\<close> is received, the count line that follows is compared with the
  length of the escaped form of the accumulated bytes, not with their raw length: a
  different count raises the count mismatch, an equal one returns the raw accumulated
  bytes.
\<close>

theorem read_count_check:
  assumes "rx t = Some 0x04 # rest"
      and "py_int (fst (take_line rest)) = Some bytes_read"
  shows "read_loop t content =
     Some (if bytes_read \<noteq> int (length (escape_file_contents content)) then
             Inl (AssertionError
               [Text (''read '' @ str_int (int (length (escape_file_contents content))) @
                      '' bytes, expected '' @ str_int bytes_read)])
           else Inr content,
           t\<lparr>rx := snd (take_line rest),
             trace := trace t @ [Read [0x04], ReadLine (fst (take_line rest))]\<rparr>)"
  using assms by (simp add: read_loop_end)

theorem read_count_check_witness:
  "read_loop \<lparr>rx = map Some [0x04, 0x32, 0x0A], trace = []\<rparr> [0x04] =
     Some (Inr [0x04], \<lparr>rx = [], trace = [Read [0x04], ReadLine [0x32, 0x0A]]\<rparr>) \<and>
   read_loop \<lparr>rx = map Some [0x04, 0x31, 0x0A], trace = []\<rparr> [0x04] =
     Some (Inl (AssertionError [Text ''read 2 bytes, expected 1'']),
       \<lparr>rx = [], trace = [Read [0x04], ReadLine [0x31, 0x0A]]\<rparr>)"
proof -
  have two: "py_int (fst (take_line (map Some [0x32, 0x0A]))) = Some 2"
    by (simp add: newline_byte_def py_int_2)
  have one: "py_int (fst (take_line (map Some [0x31, 0x0A]))) = Some 1"
    by (simp add: newline_byte_def py_int_1)
  show ?thesis
    using read_count_check [where t = "\<lparr>rx = map Some [0x04, 0x32, 0x0A], trace = []\<rparr>"
        and content = "[0x04]", OF _ two]
      read_count_check [where t = "\<lparr>rx = map Some [0x04, 0x31, 0x0A], trace = []\<rparr>"
        and content = "[0x04]", OF _ one]
    by (simp add: escape_byte_def esc_char_def end_char_def newline_byte_def str_int_def
        digits.simps)
qed

subsection \<open>Termination of the read loop\<close>

text \<open>
  Claim C10, as amended. In the data phase a read at the head of the loop that times out
  raises nothing and leaves the output as it is; the loop returns or raises exactly when
  the device delivers an unescaped \<open>END\<close> or an \<open>ESCAPE\<close> that is not followed at once by
  \<open>END\<close> or \<open>ESCAPE\<close>, and runs forever when the device goes silent before either; an
  \<open>ESCAPE\<close> followed by anything else, a timeout included, raises the invalid escape.
\<close>

theorem read_loop_halts_iff:
  "(rx t = None # r \<longrightarrow>
      read_loop t content = read_loop (t\<lparr>rx := r, trace := trace t @ [Read []]\<rparr>) content) \<and>
   ((read_loop t content = None) = (delivered (rx t) = Silence)) \<and>
   (delivered (rx t) = Bad_escape \<longrightarrow>
      (\<exists>t'. read_loop t content =
         Some (Inl (AssertionError [Text ''Invalid escape sequence received'']), t')))"
proof (intro conjI impI)
  assume "rx t = None # r"
  then show "read_loop t content = read_loop (t\<lparr>rx := r, trace := trace t @ [Read []]\<rparr>) content"
    by (rule read_loop_timeout)
next
  show "(read_loop t content = None) = (delivered (rx t) = Silence)"
  proof
    assume "read_loop t content = None"
    with read_loop_delivered_terminates [of "rx t" t content] show "delivered (rx t) = Silence"
      by auto
  next
    assume "delivered (rx t) = Silence"
    with read_loop_terminates_delivered [of t content] show "read_loop t content = None"
      by (cases "read_loop t content") auto
  qed
next
  assume "delivered (rx t) = Bad_escape"
  then show "\<exists>t'. read_loop t content =
      Some (Inl (AssertionError [Text ''Invalid escape sequence received'']), t')"
    by (rule read_loop_delivered_bad) simp
qed

theorem read_loop_halts_iff_witness:
  "read_loop \<lparr>rx = [None, Some 0x41], trace = []\<rparr> [] = None \<and>
   read_loop \<lparr>rx = [None], trace = []\<rparr> [] = read_loop \<lparr>rx = [], trace = [Read []]\<rparr> [] \<and>
   (\<exists>t'. read_loop \<lparr>rx = [Some 0x1B, Some 0x41], trace = []\<rparr> [] =
      Some (Inl (AssertionError [Text ''Invalid escape sequence received'']), t'))"
proof (intro conjI)
  show "read_loop \<lparr>rx = [None, Some 0x41], trace = []\<rparr> [] = None"
    using read_loop_halts_iff [where t = "\<lparr>rx = [None, Some 0x41], trace = []\<rparr>"
        and content = "[]", THEN conjunct2, THEN conjunct1]
    by simp
  show "read_loop \<lparr>rx = [None], trace = []\<rparr> [] = read_loop \<lparr>rx = [], trace = [Read []]\<rparr> []"
    using read_loop_halts_iff [where t = "\<lparr>rx = [None], trace = []\<rparr>" and content = "[]"
        and r = "[]", THEN conjunct1]
    by simp
  show "\<exists>t'. read_loop \<lparr>rx = [Some 0x1B, Some 0x41], trace = []\<rparr> [] =
      Some (Inl (AssertionError [Text ''Invalid escape sequence received'']), t')"
    using read_loop_halts_iff [where t = "\<lparr>rx = [Some 0x1B, Some 0x41], trace = []\<rparr>"
        and content = "[]", THEN conjunct2, THEN conjunct2]
    by simp
qed

text \<open>
  The claim as it was stated fails when the device sends \<open>ESCAPE\<close> and then nothing: no
  \<open>END\<close> is ever delivered, the read after \<open>ESCAPE\<close> times out, and the loop ends with
  the invalid escape raised instead of running forever.
\<close>

theorem read_loop_escape_timeout_counterexample:
  "delivered [Some 0x1B] \<noteq> End_delivered \<and>
   read_loop \<lparr>rx = [Some 0x1B], trace = []\<rparr> [] =
     Some (Inl (AssertionError [Text ''Invalid escape sequence received'']),
       \<lparr>rx = [], trace = [Read [0x1B], Read []]\<rparr>)"
  by (subst read_loop.simps) (simp add: ser_read_def end_char_def esc_char_def)

subsection \<open>Content sources\<close>

text \<open>
  Claim C9, as amended. A path is opened anew by every operation, so a second read gives
  the same bytes as the first; every new \<open>FillBytes\<close> of the same fill byte and length
  gives the same bytes; a file object, \<open>FillBytes\<close> included, that has been read once is
  at its end and gives the empty sequence when it is read again.
\<close>

theorem content_source_reuse:
  "(read_raw_content fs (Path p) = (res, file') \<longrightarrow> read_raw_content fs file' = (res, file')) \<and>
   fst (read_raw_content fs (FillBytes fill_byte len)) = Inr (concat (replicate (nat len) fill_byte)) \<and>
   (read_raw_content fs (Fill fill_byte io) = (res, file') \<longrightarrow>
      fst (read_raw_content fs file') = Inr []) \<and>
   (read_raw_content fs (Stream io) = (res, file') \<longrightarrow>
      fst (read_raw_content fs file') = Inr [])"
  by (auto simp: read_raw_content_def FillBytes_def io_read_def split: option.splits)

theorem content_source_reuse_witness:
  "read_raw_content (\<lambda>p. if p = ''rom.bin'' then Some [0x01, 0x02] else None)
      (snd (read_raw_content (\<lambda>p. if p = ''rom.bin'' then Some [0x01, 0x02] else None)
        (Path ''rom.bin''))) = (Inr [0x01, 0x02], Path ''rom.bin'') \<and>
   fst (read_raw_content (\<lambda>p. None) (FillBytes [0xFF] 2)) = Inr [0xFF, 0xFF] \<and>
   fst (read_raw_content (\<lambda>p. None) (Fill [0xFF] \<lparr>buf = [0xFF, 0xFF], pos = 2\<rparr>)) = Inr []"
  using content_source_reuse [where fs = "\<lambda>p. if p = ''rom.bin'' then Some [0x01, 0x02] else None"
      and p = "''rom.bin''" and res = "Inr [0x01, 0x02]" and file' = "Path ''rom.bin''"
      and fill_byte = "[0xFF]" and len = 2 and io = "\<lparr>buf = [0xFF, 0xFF], pos = 0\<rparr>"]
    content_source_reuse [where fs = "\<lambda>p. None"
      and p = "''rom.bin''" and res = "Inr [0xFF, 0xFF]" and file' = "Fill [0xFF] \<lparr>buf = [0xFF, 0xFF], pos = 2\<rparr>"
      and fill_byte = "[0xFF]" and len = 2 and io = "\<lparr>buf = [0xFF, 0xFF], pos = 0\<rparr>"]
  by (simp add: read_raw_content_def io_read_def numeral_2_eq_2)

text \<open>
  The claim as it was stated fails for the fill source: the same \<open>FillBytes\<close> object read
  a second time yields no bytes.
\<close>

theorem fill_source_second_read_counterexample:
  "fst (read_raw_content (\<lambda>p. None) (FillBytes [0xFF] 2)) = Inr [0xFF, 0xFF] \<and>
   fst (read_raw_content (\<lambda>p. None) (snd (read_raw_content (\<lambda>p. None) (FillBytes [0xFF] 2)))) = Inr []"
  by (simp add: read_raw_content_def FillBytes_def io_read_def numeral_2_eq_2)

subsection \<open>Sends that are acknowledged, sends that are not\<close>

lemma ser_readline_eq:
  "ser_readline t =
     (fst (take_line (rx t)),
      t\<lparr>rx := snd (take_line (rx t)), trace := trace t @ [ReadLine (fst (take_line (rx t)))]\<rparr>)"
  by (simp add: ser_readline_def split: prod.splits)

lemma acknowledged_write_ack:
  "rx t = Some 0x06 # r \<Longrightarrow>
   acknowledged_write t data = (Inr (), t\<lparr>rx := r, trace := trace t @ [Write data, Flush, Read [0x06]]\<rparr>)"
  by (simp add: acknowledged_write_def ser_write_def ser_flush_def ser_read_def ack_char_def)

lemma acknowledged_write_nak:
  "rx t = Some b # r \<Longrightarrow> b \<noteq> 0x06 \<Longrightarrow>
   acknowledged_write t data =
     (case flush_read_buffer (t\<lparr>rx := r, trace := trace t @ [Write data, Flush, Read [b]]\<rparr>) of
        (residue, t2) \<Rightarrow>
          (case decode_ascii residue of
             None \<Rightarrow> (Inl UnicodeDecodeError, t2)
           | Some text \<Rightarrow>
               (Inl (ConnectionError [Text ''Programmer did not acknowledge write'', Text text]), t2)))"
  by (simp add: acknowledged_write_def ser_write_def ser_flush_def ser_read_def ack_char_def)

lemma write_escaped_acks:
  "rx t = replicate (length bs) (Some 0x06) @ r \<Longrightarrow>
   write_escaped t bs =
     (Inr (), t\<lparr>rx := r, trace := trace t @ concat (map (\<lambda>b. [Write [b], Flush, Read [0x06]]) bs)\<rparr>)"
proof (induction bs arbitrary: t)
  case Nil
  then have "t\<lparr>rx := r, trace := trace t @ concat (map (\<lambda>b. [Write [b], Flush, Read [0x06]]) [])\<rparr> = t"
    by (cases t) simp
  then show ?case by simp
next
  case (Cons b bs)
  from Cons.prems have rx: "rx t = Some 0x06 # replicate (length bs) (Some 0x06) @ r"
    by simp
  show ?case
    by (simp add: acknowledged_write_ack [OF rx] Cons.IH)
qed

subsection \<open>The count line of a write\<close>

text \<open>
  Claim C5. When every send of a write is acknowledged, \<open>write_file\<close> reads one line after
  \<open>END\<close>, parses it as a decimal count, and raises the count mismatch exactly when the
  count differs from the number of raw bytes read from the content source.
\<close>

theorem write_count_check:
  assumes "read_raw_content fs file = (Inr raw_content, file')"
      and "file_str file' = Inr desc"
      and "rx t = replicate (3 + length (escape_file_contents raw_content)) (Some 0x06) @ rest"
      and "py_int (fst (take_line rest)) = Some bytes_written"
  shows "fst (write_file fs file start_address t) =
     (if bytes_written \<noteq> int (length raw_content) then
        Inl (AssertionError
          [Text (''written '' @ str_int bytes_written @ '' bytes, expected '' @
                 str_int (int (length raw_content)))])
      else Inr ())"
proof -
  let ?n = "length (escape_file_contents raw_content)"
  have "3 + ?n = Suc (Suc (Suc ?n))"
    by simp
  with assms(3) have rx: "rx t = Some 0x06 # Some 0x06 # replicate ?n (Some 0x06) @ Some 0x06 # rest"
    by (simp add: replicate_app_Cons_same)
  obtain t1 where s1: "acknowledged_write t (encode_ascii ''w '') = (Inr (), t1)"
    and r1: "rx t1 = Some 0x06 # replicate ?n (Some 0x06) @ Some 0x06 # rest"
    using acknowledged_write_ack [OF rx] by simp
  obtain t2 where s2: "acknowledged_write t1 (encode_ascii (str_int start_address)) = (Inr (), t2)"
    and r2: "rx t2 = replicate ?n (Some 0x06) @ Some 0x06 # rest"
    using acknowledged_write_ack [OF r1] by simp
  obtain t3 where s3: "write_escaped t2 (escape_file_contents raw_content) = (Inr (), t3)"
    and r3: "rx t3 = Some 0x06 # rest"
    using write_escaped_acks [OF r2] by simp
  obtain t4 where s4: "acknowledged_write t3 end_char = (Inr (), t4)" and r4: "rx t4 = rest"
    using acknowledged_write_ack [OF r3] by simp
  obtain t5 where s5: "ser_readline t4 = (fst (take_line rest), t5)"
    using r4 by (simp add: ser_readline_eq)
  show ?thesis
    by (simp add: write_file_def s1 s2 assms(1) assms(2) s3 s4 s5 assms(4))
qed

theorem write_count_check_witness:
  "fst (write_file (\<lambda>p. None) (Stream \<lparr>buf = [0x04], pos = 0\<rparr>) 0
      \<lparr>rx = map Some [0x06, 0x06, 0x06, 0x06, 0x06, 0x31, 0x0A], trace = []\<rparr>) = Inr () \<and>
   fst (write_file (\<lambda>p. None) (Stream \<lparr>buf = [0x04], pos = 0\<rparr>) 0
      \<lparr>rx = map Some [0x06, 0x06, 0x06, 0x06, 0x06, 0x32, 0x0A], trace = []\<rparr>) =
     Inl (AssertionError [Text ''written 2 bytes, expected 1''])"
proof -
  have rd: "read_raw_content (\<lambda>p. None) (Stream \<lparr>buf = [0x04], pos = 0\<rparr>) =
      (Inr [0x04], Stream \<lparr>buf = [0x04], pos = 1\<rparr>)"
    by (simp add: read_raw_content_def io_read_def)
  have desc: "file_str (Stream \<lparr>buf = [0x04], pos = 1\<rparr>) = Inr ''<_io.BytesIO object>''"
    by (simp add: file_str_def)
  have rx: "rx \<lparr>rx = map Some [0x06, 0x06, 0x06, 0x06, 0x06, c, 0x0A], trace = []\<rparr> =
      replicate (3 + length (escape_file_contents [0x04])) (Some 0x06) @ map Some [c, 0x0A]" for c
    by (simp add: escape_byte_def esc_char_def end_char_def numeral_eq_Suc)
  have one: "py_int (fst (take_line (map Some [0x31, 0x0A]))) = Some 1"
    by (simp add: newline_byte_def py_int_1)
  have two: "py_int (fst (take_line (map Some [0x32, 0x0A]))) = Some 2"
    by (simp add: newline_byte_def py_int_2)
  show ?thesis
    using write_count_check [OF rd desc rx one, of 0] write_count_check [OF rd desc rx two, of 0]
    by (simp add: str_int_def digits.simps)
qed

subsection \<open>A send that is not acknowledged\<close>

text \<open>
  Claim C6 asks that a send which is not acknowledged surfaces as a link fault carrying
  the drained bytes. The fault is built from \<^verbatim>\<open>flush_read_buffer().decode("ascii")\<close>:
  when the drained bytes hold a byte above 0x7F the decoding raises, and that exception
  surfaces in place of the link fault.
\<close>

theorem link_fault_undecodable:
  assumes "rx t = Some b # r" and "b \<noteq> 0x06"
      and "decode_ascii (fst (flush_read_buffer
             (t\<lparr>rx := r, trace := trace t @ [Write (encode_ascii ''w ''), Flush, Read [b]]\<rparr>))) = None"
  shows "fst (write_file fs file start_address t) = Inl UnicodeDecodeError"
  using assms
  by (auto simp add: write_file_def acknowledged_write_nak split: prod.splits)

theorem link_fault_undecodable_witness:
  "fst (write_file (\<lambda>p. None) (Stream \<lparr>buf = [], pos = 0\<rparr>) 0
         \<lparr>rx = [Some 0x15, Some 0xFF], trace = []\<rparr>) = Inl UnicodeDecodeError"
proof -
  have "decode_ascii (fst (flush_read_buffer
      (\<lparr>rx = [Some 0x15, Some 0xFF], trace = []\<rparr>\<lparr>rx := [Some 0xFF],
         trace := trace \<lparr>rx = [Some 0x15, Some 0xFF], trace = []\<rparr> @
           [Write (encode_ascii ''w ''), Flush, Read [0x15]]\<rparr>))) = None"
    by (simp add: flush_read_buffer_def ser_readline_def newline_byte_def decode_ascii_def)
  then show ?thesis
    by (intro link_fault_undecodable [where b = "0x15" and r = "[Some 0xFF]"]) simp_all
qed

text \<open>With drained bytes that are all ASCII the link fault is raised and carries them.\<close>

lemma link_fault_decodable:
  assumes "rx t = Some b # r" and "b \<noteq> 0x06"
      and "decode_ascii (fst (flush_read_buffer
             (t\<lparr>rx := r, trace := trace t @ [Write (encode_ascii ''w ''), Flush, Read [b]]\<rparr>))) = Some text"
  shows "fst (write_file fs file start_address t) =
     Inl (ConnectionError [Text ''Programmer did not acknowledge write'', Text text])"
  using assms
  by (auto simp add: write_file_def acknowledged_write_nak split: prod.splits)

subsection \<open>\<open>check_filled\<close>\<close>

lemma FillBytes_FF_2: "FillBytes [0xFF] 2 = Fill [0xFF] \<lparr>buf = [0xFF, 0xFF], pos = 0\<rparr>"
  by (simp add: FillBytes_def numeral_2_eq_2)

lemma verify_not_filled:
  "verify_file (\<lambda>p. None) (FillBytes [0xFF] 2) 0
     \<lparr>rx = map Some [0x06, 0x06, 0x06, 0x00, 0x00, 0x04, 0x32, 0x0A], trace = []\<rparr> =
   Some (Inl (AssertionError
       [Text ''Contents do not match input file'',
        ContextDiff (format_hex [0xFF, 0xFF]) (format_hex [0x00, 0x00]) ''fill bytes (0xFF)'']),
     Fill [0xFF] \<lparr>buf = [0xFF, 0xFF], pos = 2\<rparr>,
     \<lparr>rx = [],
      trace = [Write [0x72, 0x20], Flush, Read [0x06], Write [0x30], Flush, Read [0x06],
               Write [0x32], Flush, Read [0x06],
               Read [0x00], Read [0x00], Read [0x04], ReadLine [0x32, 0x0A]]\<rparr>)"
  by (simp add: verify_file_def FillBytes_FF_2 read_raw_content_def io_read_def
      read_contents_def acknowledged_write_ack ser_read_def
      ser_readline_def end_char_def esc_char_def encode_ascii_def str_int_def
      read_loop.simps newline_byte_def py_int_2 escape_byte_def file_repr_def fill_repr_def
      fmt_02X_def zero_pad_def digits.simps hex_upper.simps)

text \<open>
  Claim C7 asks that \<open>check_filled\<close> on a region that is not filled raises a fault naming
  the fill byte. Whenever \<open>verify_file\<close> raises an \<^verbatim>\<open>AssertionError\<close>, the handler of
  \<open>check_filled\<close> formats the \<^verbatim>\<open>bytes\<close> object \<^verbatim>\<open>fill_byte\<close> with \<^verbatim>\<open>02X\<close>, which
  raises \<^verbatim>\<open>TypeError\<close> before the new fault is built.
\<close>

theorem check_filled_mismatch:
  "verify_file fs (FillBytes fill_byte len) start_address t = Some (Inl (AssertionError args), file', t')
   \<Longrightarrow> check_filled fs fill_byte len start_address t = Some (Inl TypeError, t')"
  by (simp add: check_filled_def format_bytes_02X_def)

theorem check_filled_mismatch_witness:
  "check_filled (\<lambda>p. None) [0xFF] 2 0
     \<lparr>rx = map Some [0x06, 0x06, 0x06, 0x00, 0x00, 0x04, 0x32, 0x0A], trace = []\<rparr> =
   Some (Inl TypeError,
     \<lparr>rx = [],
      trace = [Write [0x72, 0x20], Flush, Read [0x06], Write [0x30], Flush, Read [0x06],
               Write [0x32], Flush, Read [0x06],
               Read [0x00], Read [0x00], Read [0x04], ReadLine [0x32, 0x0A]]\<rparr>)"
  by (rule check_filled_mismatch [OF verify_not_filled])

text \<open>On a region that holds the fill byte throughout, \<open>check_filled\<close> succeeds.\<close>

lemma check_filled_example:
  "check_filled (\<lambda>p. None) [0xFF] 2 0
     \<lparr>rx = map Some [0x06, 0x06, 0x06, 0xFF, 0xFF, 0x04, 0x32, 0x0A], trace = []\<rparr> =
   Some (Inr (),
     \<lparr>rx = [],
      trace = [Write [0x72, 0x20], Flush, Read [0x06], Write [0x30], Flush, Read [0x06],
               Write [0x32], Flush, Read [0x06],
               Read [0xFF], Read [0xFF], Read [0x04], ReadLine [0x32, 0x0A]]\<rparr>)"
  by (simp add: check_filled_def verify_file_def FillBytes_FF_2 read_raw_content_def io_read_def
      read_contents_def acknowledged_write_ack ser_read_def
      ser_readline_def end_char_def esc_char_def encode_ascii_def str_int_def
      read_loop.simps newline_byte_def py_int_2 escape_byte_def digits.simps)

subsection \<open>The log of a frame\<close>

lemma acked_sends_append:
  "acked_sends p (xs @ ys) = (acked_sends p xs \<and> acked_sends (pending_after p xs) ys)"
  by (induction p xs rule: acked_sends.induct) auto

lemma pending_after_append:
  "pending_after p (xs @ ys) = pending_after (pending_after p xs) ys"
  by (induction p xs rule: pending_after.induct) auto

lemma writes_of_append: "writes_of (xs @ ys) = writes_of xs @ writes_of ys"
  by (induction xs rule: writes_of.induct) auto

lemma quiet_acked_sends: "writes_of ev = [] \<Longrightarrow> acked_sends p ev"
  by (induction p ev rule: acked_sends.induct) auto

lemma quiet_idle: "writes_of ev = [] \<Longrightarrow> \<not> p \<Longrightarrow> \<not> pending_after p ev"
  by (induction p ev rule: pending_after.induct) auto

lemma flush_read_buffer_loop_trace:
  "flush_read_buffer_loop t content = (residue, t') \<Longrightarrow>
   \<exists>ev. trace t' = trace t @ ev \<and> writes_of ev = []"
proof (induction t content arbitrary: residue t' rule: flush_read_buffer_loop.induct)
  case (1 t content)
  obtain line t1 where line: "ser_readline t = (line, t1)"
    by (cases "ser_readline t")
  then have t1: "trace t1 = trace t @ [ReadLine line]"
    by (auto simp: ser_readline_eq)
  show ?case
  proof (cases "line = []")
    case True
    with 1(2) line have "t' = t1"
      by (subst (asm) flush_read_buffer_loop.simps) simp
    with t1 show ?thesis by simp
  next
    case False
    with 1(2) line have "flush_read_buffer_loop t1 (content @ line) = (residue, t')"
      by (subst (asm) flush_read_buffer_loop.simps) simp
    from "1.IH" [OF line [symmetric] False this]
    obtain ev where "trace t' = trace t1 @ ev" and "writes_of ev = []"
      by blast
    with t1 have "trace t' = trace t @ (ReadLine line # ev) \<and> writes_of (ReadLine line # ev) = []"
      by simp
    then show ?thesis by blast
  qed
qed

lemma acknowledged_write_sent:
  "acknowledged_write t data = (Inr u, t') \<Longrightarrow>
   trace t' = trace t @ [Write data, Flush, Read ack_char]"
  by (auto simp: acknowledged_write_def ser_write_def ser_flush_def ser_read_def
      split: prod.splits if_splits option.splits list.splits)

lemma acknowledged_write_failed:
  "acknowledged_write t data = (Inl e, t') \<Longrightarrow>
   \<exists>response ev. response \<noteq> ack_char \<and> writes_of ev = [] \<and>
     trace t' = trace t @ [Write data, Flush, Read response] @ ev"
proof -
  assume a: "acknowledged_write t data = (Inl e, t')"
  obtain response t1 where r: "ser_read (ser_flush (ser_write t data)) = (response, t1)"
    by (cases "ser_read (ser_flush (ser_write t data))")
  then have t1: "trace t1 = trace t @ [Write data, Flush, Read response]"
    by (auto simp: ser_write_def ser_flush_def ser_read_def split: list.splits option.splits)
  from a r have ne: "response \<noteq> ack_char"
    by (auto simp: acknowledged_write_def)
  obtain residue t2 where f: "flush_read_buffer t1 = (residue, t2)"
    by (cases "flush_read_buffer t1")
  with a r ne have "t' = t2"
    by (auto simp: acknowledged_write_def split: option.splits)
  moreover from f obtain ev where "trace t2 = trace t1 @ ev" and "writes_of ev = []"
    unfolding flush_read_buffer_def by (blast dest: flush_read_buffer_loop_trace)
  ultimately show ?thesis
    using t1 ne by auto
qed

lemma write_escaped_sent:
  "write_escaped t bs = (Inr u, t') \<Longrightarrow>
   trace t' = trace t @ concat (map (\<lambda>b. [Write [b], Flush, Read ack_char]) bs)"
proof (induction bs arbitrary: t)
  case Nil
  then show ?case by simp
next
  case (Cons b bs)
  then show ?case
    by (auto split: prod.splits sum.splits dest!: acknowledged_write_sent)
qed

lemma write_escaped_failed:
  "write_escaped t bs = (Inl e, t') \<Longrightarrow>
   \<exists>k response ev. k < length bs \<and> response \<noteq> ack_char \<and> writes_of ev = [] \<and>
     trace t' = trace t @ concat (map (\<lambda>b. [Write [b], Flush, Read ack_char]) (take k bs)) @
       [Write [bs ! k], Flush, Read response] @ ev"
proof (induction bs arbitrary: t)
  case Nil
  then show ?case by simp
next
  case (Cons b bs)
  obtain res t1 where aw: "acknowledged_write t [b] = (res, t1)"
    by (cases "acknowledged_write t [b]")
  show ?case
  proof (cases res)
    case (Inl e1)
    with Cons.prems aw have "t' = t1"
      by simp
    with aw Inl acknowledged_write_failed [of t "[b]" e1 t1]
    obtain response ev where "response \<noteq> ack_char" "writes_of ev = []"
      "trace t' = trace t @ [Write [b], Flush, Read response] @ ev"
      by blast
    then have "0 < length (b # bs) \<and> response \<noteq> ack_char \<and> writes_of ev = [] \<and>
        trace t' = trace t @ concat (map (\<lambda>b. [Write [b], Flush, Read ack_char]) (take 0 (b # bs))) @
          [Write [(b # bs) ! 0], Flush, Read response] @ ev"
      by simp
    then show ?thesis by blast
  next
    case (Inr u1)
    with Cons.prems aw have "write_escaped t1 bs = (Inl e, t')"
      by simp
    from Cons.IH [OF this]
    obtain k response ev where k: "k < length bs" "response \<noteq> ack_char" "writes_of ev = []"
      "trace t' = trace t1 @ concat (map (\<lambda>b. [Write [b], Flush, Read ack_char]) (take k bs)) @
         [Write [bs ! k], Flush, Read response] @ ev"
      by blast
    from aw Inr have "trace t1 = trace t @ [Write [b], Flush, Read ack_char]"
      by (auto dest: acknowledged_write_sent)
    with k have "Suc k < length (b # bs) \<and> response \<noteq> ack_char \<and> writes_of ev = [] \<and>
        trace t' = trace t @ concat (map (\<lambda>b. [Write [b], Flush, Read ack_char]) (take (Suc k) (b # bs))) @
          [Write [(b # bs) ! Suc k], Flush, Read response] @ ev"
      by simp
    then show ?thesis by blast
  qed
qed

lemma read_loop_quiet:
  assumes "read_loop t content = Some rt"
  shows "\<exists>ev. trace (snd rt) = trace t @ ev \<and> writes_of ev = []"
  using assms
proof (induction rule: read_loop.raw_induct [rotated 1, consumes 1])
  case (1 loop t content rt)
  obtain res t' where rt: "rt = (res, t')"
    by (cases rt)
  obtain char t1 where c1: "ser_read t = (char, t1)"
    by (cases "ser_read t")
  then have t1: "trace t1 = trace t @ [Read char]"
    by (auto simp: ser_read_def split: list.splits option.splits)
  show ?case
  proof (cases "char = end_char")
    case True
    with 1(2) c1 rt have "trace t' = trace t1 @ [ReadLine (fst (take_line (rx t1)))]"
      by (auto simp: ser_readline_eq split: option.splits if_splits)
    with t1 have "trace t' = trace t @ [Read char, ReadLine (fst (take_line (rx t1)))] \<and>
        writes_of [Read char, ReadLine (fst (take_line (rx t1)))] = []"
      by simp
    with rt show ?thesis by auto
  next
    case not_end: False
    show ?thesis
    proof (cases "char = esc_char")
      case True
      obtain char' t2 where c2: "ser_read t1 = (char', t2)"
        by (cases "ser_read t1")
      then have t2: "trace t2 = trace t1 @ [Read char']"
        by (auto simp: ser_read_def split: list.splits option.splits)
      show ?thesis
      proof (cases "char' \<notin> set [end_char, esc_char]")
        case True
        with 1(2) c1 c2 not_end \<open>char = esc_char\<close> rt have "t' = t2"
          by auto
        with t1 t2 rt show ?thesis by simp
      next
        case False
        with 1(2) c1 c2 not_end \<open>char = esc_char\<close> have "loop t2 (content @ char') = Some rt"
          by auto
        from 1(1) [OF this] rt t1 t2 show ?thesis
          by auto
      qed
    next
      case False
      with 1(2) c1 not_end have "loop t1 (content @ char) = Some rt"
        by auto
      from 1(1) [OF this] rt t1 show ?thesis
        by auto
    qed
  qed
qed

lemma chunks_acked_Nil: "chunks_acked shape []"
  by (simp add: chunks_acked_def)

lemma quiet_step:
  assumes "trace t1 = trace t @ q" and "writes_of q = []"
      and "trace t = base @ ev" and "chunks_acked shape ev"
  shows "\<exists>ev'. trace t1 = base @ ev' \<and> chunks_acked shape ev' \<and>
     (\<not> pending_after False ev \<longrightarrow> \<not> pending_after False ev')"
proof -
  from assms have "trace t1 = base @ (ev @ q)"
    by simp
  moreover from assms have "chunks_acked shape (ev @ q)"
    by (simp add: chunks_acked_def acked_sends_append writes_of_append quiet_acked_sends)
  moreover from assms have "\<not> pending_after False ev \<longrightarrow> \<not> pending_after False (ev @ q)"
    by (simp add: pending_after_append quiet_idle)
  ultimately show ?thesis by blast
qed

lemma acknowledged_write_step:
  assumes "acknowledged_write t data = (res, t1)"
      and "trace t = base @ ev" and "chunks_acked shape ev" and "\<not> pending_after False ev"
      and "shape data"
  shows "\<exists>ev'. trace t1 = base @ ev' \<and> chunks_acked shape ev' \<and>
     ((\<exists>u. res = Inr u) \<longrightarrow> \<not> pending_after False ev')"
proof (cases res)
  case (Inr u)
  with assms(1) have "trace t1 = trace t @ [Write data, Flush, Read ack_char]"
    by (auto dest: acknowledged_write_sent)
  with assms have "trace t1 = base @ (ev @ [Write data, Flush, Read ack_char])"
    and "chunks_acked shape (ev @ [Write data, Flush, Read ack_char])"
    and "\<not> pending_after False (ev @ [Write data, Flush, Read ack_char])"
    by (simp_all add: chunks_acked_def acked_sends_append writes_of_append pending_after_append)
  then show ?thesis by blast
next
  case (Inl e)
  with assms(1) obtain response q where "writes_of q = []"
    and "trace t1 = trace t @ [Write data, Flush, Read response] @ q"
    by (blast dest: acknowledged_write_failed)
  with assms have "trace t1 = base @ (ev @ [Write data, Flush, Read response] @ q)"
    and "chunks_acked shape (ev @ [Write data, Flush, Read response] @ q)"
    by (simp_all add: chunks_acked_def acked_sends_append writes_of_append pending_after_append
        quiet_acked_sends)
  with Inl show ?thesis by blast
qed

lemma write_escaped_step:
  assumes "write_escaped t bs = (res, t1)"
      and "trace t = base @ ev" and "chunks_acked shape ev" and "\<not> pending_after False ev"
      and "\<And>b. shape [b]"
  shows "\<exists>ev'. trace t1 = base @ ev' \<and> chunks_acked shape ev' \<and>
     ((\<exists>u. res = Inr u) \<longrightarrow> \<not> pending_after False ev')"
  using assms(1-4)
proof (induction bs arbitrary: t ev)
  case Nil
  then show ?case by auto
next
  case (Cons b bs)
  obtain r1 t' where aw: "acknowledged_write t [b] = (r1, t')"
    by (cases "acknowledged_write t [b]")
  from acknowledged_write_step [OF aw Cons.prems(2,3,4) assms(5)]
  obtain ev' where ev': "trace t' = base @ ev'" "chunks_acked shape ev'"
    "(\<exists>u. r1 = Inr u) \<longrightarrow> \<not> pending_after False ev'"
    by blast
  show ?case
  proof (cases r1)
    case (Inl e)
    with Cons.prems(1) aw have "res = Inl e" "t1 = t'"
      by simp_all
    with ev' show ?thesis by auto
  next
    case (Inr u)
    with Cons.prems(1) aw have "write_escaped t' bs = (res, t1)"
      by simp
    from Cons.IH [OF this ev'(1,2)] ev'(3) Inr show ?thesis
      by blast
  qed
qed

lemma write_file_chunks:
  assumes wf: "write_file fs file start_address t = (res, file', t')"
  shows "\<exists>ev. trace t' = trace t @ ev \<and>
     chunks_acked (\<lambda>d. d = encode_ascii ''w '' \<or> d = encode_ascii (str_int start_address) \<or>
                        length d = 1) ev"
proof -
  let ?shape = "\<lambda>d. d = encode_ascii ''w '' \<or> d = encode_ascii (str_int start_address) \<or>
                        length d = 1"
  have start: "trace t = trace t @ []" "chunks_acked ?shape []" "\<not> pending_after False []"
    by (simp_all add: chunks_acked_def)
  obtain r1 t1 where s1: "acknowledged_write t (encode_ascii ''w '') = (r1, t1)"
    by (cases "acknowledged_write t (encode_ascii ''w '')")
  from acknowledged_write_step [OF s1 start]
  obtain ev1 where e1: "trace t1 = trace t @ ev1" "chunks_acked ?shape ev1"
    "(\<exists>u. r1 = Inr u) \<longrightarrow> \<not> pending_after False ev1"
    by auto
  show ?thesis
  proof (cases r1)
    case (Inl e)
    with wf s1 have "t' = t1" by (simp add: write_file_def)
    with e1 show ?thesis by blast
  next
    case r1: (Inr u1)
    obtain r2 t2 where s2: "acknowledged_write t1 (encode_ascii (str_int start_address)) = (r2, t2)"
      by (cases "acknowledged_write t1 (encode_ascii (str_int start_address))")
    from e1 r1 have i1: "\<not> pending_after False ev1" by simp
    from acknowledged_write_step [OF s2 e1(1,2) i1]
    obtain ev2 where e2: "trace t2 = trace t @ ev2" "chunks_acked ?shape ev2"
      "(\<exists>u. r2 = Inr u) \<longrightarrow> \<not> pending_after False ev2"
      by auto
    show ?thesis
    proof (cases r2)
      case (Inl e)
      with wf s1 r1 s2 have "t' = t2" by (simp add: write_file_def)
      with e2 show ?thesis by blast
    next
      case r2: (Inr u2)
      from e2 r2 have i2: "\<not> pending_after False ev2" by simp
      obtain rr file1 where rd: "read_raw_content fs file = (rr, file1)"
        by (cases "read_raw_content fs file")
      show ?thesis
      proof (cases rr)
        case (Inl e)
        with wf s1 r1 s2 r2 rd have "t' = t2" by (simp add: write_file_def)
        with e2 show ?thesis by blast
      next
        case raw: (Inr raw_content)
        show ?thesis
        proof (cases "file_str file1")
          case (Inl e)
          with wf s1 r1 s2 r2 rd raw have "t' = t2" by (simp add: write_file_def)
          with e2 show ?thesis by blast
        next
          case desc: (Inr desc)
          obtain r3 t3 where s3: "write_escaped t2 (escape_file_contents raw_content) = (r3, t3)"
            by (cases "write_escaped t2 (escape_file_contents raw_content)")
          from write_escaped_step [OF s3 e2(1,2) i2]
          obtain ev3 where e3: "trace t3 = trace t @ ev3" "chunks_acked ?shape ev3"
            "(\<exists>u. r3 = Inr u) \<longrightarrow> \<not> pending_after False ev3"
            by auto
          show ?thesis
          proof (cases r3)
            case (Inl e)
            with wf s1 r1 s2 r2 rd raw desc s3 have "t' = t3" by (simp add: write_file_def)
            with e3 show ?thesis by blast
          next
            case r3: (Inr u3)
            from e3 r3 have i3: "\<not> pending_after False ev3" by simp
            obtain r4 t4 where s4: "acknowledged_write t3 end_char = (r4, t4)"
              by (cases "acknowledged_write t3 end_char")
            from acknowledged_write_step [OF s4 e3(1,2) i3]
            obtain ev4 where e4: "trace t4 = trace t @ ev4" "chunks_acked ?shape ev4"
              "(\<exists>u. r4 = Inr u) \<longrightarrow> \<not> pending_after False ev4"
              by (auto simp: end_char_def)
            show ?thesis
            proof (cases r4)
              case (Inl e)
              with wf s1 r1 s2 r2 rd raw desc s3 r3 s4 have "t' = t4" by (simp add: write_file_def)
              with e4 show ?thesis by blast
            next
              case r4: (Inr u4)
              obtain response t5 where s5: "ser_readline t4 = (response, t5)"
                by (cases "ser_readline t4")
              then have "trace t5 = trace t4 @ [ReadLine response]"
                by (auto simp: ser_readline_eq)
              from quiet_step [OF this _ e4(1,2)]
              obtain ev5 where e5: "trace t5 = trace t @ ev5" "chunks_acked ?shape ev5"
                by auto
              from wf s1 r1 s2 r2 rd raw desc s3 r3 s4 r4 s5 have "t' = t5"
                by (simp add: write_file_def split: option.splits if_splits)
              with e5 show ?thesis by blast
            qed
          qed
        qed
      qed
    qed
  qed
qed

lemma write_file_sent:
  assumes wf: "write_file fs file start_address t = (Inr (), file', t')"
  shows "\<exists>raw_content response. read_raw_content fs file = (Inr raw_content, file') \<and>
     trace t' = trace t @
       [Write (encode_ascii ''w ''), Flush, Read ack_char,
        Write (encode_ascii (str_int start_address)), Flush, Read ack_char] @
       concat (map (\<lambda>b. [Write [b], Flush, Read ack_char]) (escape_file_contents raw_content)) @
       [Write end_char, Flush, Read ack_char, ReadLine response]"
proof -
  from wf obtain t1 where s1: "acknowledged_write t (encode_ascii ''w '') = (Inr (), t1)"
    by (auto simp: write_file_def split: prod.splits sum.splits)
  from wf s1 obtain t2 where s2: "acknowledged_write t1 (encode_ascii (str_int start_address)) = (Inr (), t2)"
    by (auto simp: write_file_def split: prod.splits sum.splits)
  from wf s1 s2 obtain raw_content file1 where rd: "read_raw_content fs file = (Inr raw_content, file1)"
    by (auto simp: write_file_def split: prod.splits sum.splits)
  from wf s1 s2 rd obtain desc where d: "file_str file1 = Inr desc"
    by (auto simp: write_file_def split: prod.splits sum.splits)
  from wf s1 s2 rd d obtain t3 where s3: "write_escaped t2 (escape_file_contents raw_content) = (Inr (), t3)"
    by (auto simp: write_file_def split: prod.splits sum.splits)
  from wf s1 s2 rd d s3 obtain t4 where s4: "acknowledged_write t3 end_char = (Inr (), t4)"
    by (auto simp: write_file_def split: prod.splits sum.splits)
  obtain response t5 where s5: "ser_readline t4 = (response, t5)"
    by (cases "ser_readline t4")
  from wf s1 s2 rd d s3 s4 s5 have fin: "file' = file1" "t' = t5"
    by (auto simp: write_file_def split: option.splits if_splits)
  from s5 have "trace t5 = trace t4 @ [ReadLine response]"
    by (auto simp: ser_readline_eq)
  with acknowledged_write_sent [OF s1] acknowledged_write_sent [OF s2] write_escaped_sent [OF s3]
    acknowledged_write_sent [OF s4] fin rd
  show ?thesis by simp
qed

lemma read_contents_chunks:
  assumes rc: "read_contents start_address len t = Some (res, t')"
  shows "\<exists>ev. trace t' = trace t @ ev \<and>
     chunks_acked (\<lambda>d. d = encode_ascii ''r '' \<or> d = encode_ascii (str_int start_address) \<or>
                        d = encode_ascii (str_int len)) ev"
proof -
  let ?shape = "\<lambda>d. d = encode_ascii ''r '' \<or> d = encode_ascii (str_int start_address) \<or>
                        d = encode_ascii (str_int len)"
  have start: "trace t = trace t @ []" "chunks_acked ?shape []" "\<not> pending_after False []"
    by (simp_all add: chunks_acked_def)
  obtain r1 t1 where s1: "acknowledged_write t (encode_ascii ''r '') = (r1, t1)"
    by (cases "acknowledged_write t (encode_ascii ''r '')")
  from acknowledged_write_step [OF s1 start]
  obtain ev1 where e1: "trace t1 = trace t @ ev1" "chunks_acked ?shape ev1"
    "(\<exists>u. r1 = Inr u) \<longrightarrow> \<not> pending_after False ev1"
    by auto
  show ?thesis
  proof (cases r1)
    case (Inl e)
    with rc s1 have "t' = t1" by (simp add: read_contents_def)
    with e1 show ?thesis by blast
  next
    case r1: (Inr u1)
    obtain r2 t2 where s2: "acknowledged_write t1 (encode_ascii (str_int start_address)) = (r2, t2)"
      by (cases "acknowledged_write t1 (encode_ascii (str_int start_address))")
    from e1 r1 have i1: "\<not> pending_after False ev1" by simp
    from acknowledged_write_step [OF s2 e1(1,2) i1]
    obtain ev2 where e2: "trace t2 = trace t @ ev2" "chunks_acked ?shape ev2"
      "(\<exists>u. r2 = Inr u) \<longrightarrow> \<not> pending_after False ev2"
      by auto
    show ?thesis
    proof (cases r2)
      case (Inl e)
      with rc s1 r1 s2 have "t' = t2" by (simp add: read_contents_def)
      with e2 show ?thesis by blast
    next
      case r2: (Inr u2)
      from e2 r2 have i2: "\<not> pending_after False ev2" by simp
      obtain r3 t3 where s3: "acknowledged_write t2 (encode_ascii (str_int len)) = (r3, t3)"
        by (cases "acknowledged_write t2 (encode_ascii (str_int len))")
      from acknowledged_write_step [OF s3 e2(1,2) i2]
      obtain ev3 where e3: "trace t3 = trace t @ ev3" "chunks_acked ?shape ev3"
        "(\<exists>u. r3 = Inr u) \<longrightarrow> \<not> pending_after False ev3"
        by auto
      show ?thesis
      proof (cases r3)
        case (Inl e)
        with rc s1 r1 s2 r2 s3 have "t' = t3" by (simp add: read_contents_def)
        with e3 show ?thesis by blast
      next
        case r3: (Inr u3)
        with rc s1 r1 s2 r2 s3 have "read_loop t3 [] = Some (res, t')"
          by (simp add: read_contents_def)
        from read_loop_quiet [OF this] obtain q where "trace t' = trace t3 @ q" "writes_of q = []"
          by auto
        from quiet_step [OF this e3(1,2)] show ?thesis by blast
      qed
    qed
  qed
qed

text \<open>The three sends that open a read, whether or not the loop after them returns.\<close>

lemma acknowledged_write_sent_rx:
  "acknowledged_write t data = (Inr u, t') \<Longrightarrow> rx t = Some 0x06 # rx t'"
  by (auto simp: acknowledged_write_def ser_write_def ser_flush_def ser_read_def ack_char_def
      split: prod.splits if_splits option.splits list.splits)

lemma read_contents_acked:
  "rx t = Some 0x06 # Some 0x06 # Some 0x06 # r \<Longrightarrow>
   read_contents start_address len t =
     read_loop (t\<lparr>rx := r,
        trace := trace t @
          [Write (encode_ascii ''r ''), Flush, Read ack_char,
           Write (encode_ascii (str_int start_address)), Flush, Read ack_char,
           Write (encode_ascii (str_int len)), Flush, Read ack_char]\<rparr>) []"
  by (simp add: read_contents_def acknowledged_write_ack ack_char_def)

lemma read_contents_header:
  "(\<exists>r. rx t = Some 0x06 # Some 0x06 # Some 0x06 # r \<and>
      read_contents start_address len t =
        read_loop (t\<lparr>rx := r,
           trace := trace t @
             [Write (encode_ascii ''r ''), Flush, Read ack_char,
              Write (encode_ascii (str_int start_address)), Flush, Read ack_char,
              Write (encode_ascii (str_int len)), Flush, Read ack_char]\<rparr>) []) \<or>
   (\<exists>k e t' response q. k < 3 \<and> response \<noteq> ack_char \<and> writes_of q = [] \<and>
      read_contents start_address len t = Some (Inl e, t') \<and>
      trace t' = trace t @
        concat (map (\<lambda>d. [Write d, Flush, Read ack_char])
          (take k [encode_ascii ''r '', encode_ascii (str_int start_address),
                   encode_ascii (str_int len)])) @
        [Write ([encode_ascii ''r '', encode_ascii (str_int start_address),
                 encode_ascii (str_int len)] ! k), Flush, Read response] @ q)"
  (is "?entered \<or> ?aborted")
proof -
  let ?hdr = "[encode_ascii ''r '', encode_ascii (str_int start_address), encode_ascii (str_int len)]"
  obtain r1 t1 where s1: "acknowledged_write t (encode_ascii ''r '') = (r1, t1)"
    by (cases "acknowledged_write t (encode_ascii ''r '')")
  show ?thesis
  proof (cases r1)
    case (Inl e)
    with s1 obtain response q where f: "response \<noteq> ack_char" "writes_of q = []"
      "trace t1 = trace t @ [Write (encode_ascii ''r ''), Flush, Read response] @ q"
      by (blast dest: acknowledged_write_failed)
    from s1 Inl have "read_contents start_address len t = Some (Inl e, t1)"
      by (simp add: read_contents_def)
    with f have "(0::nat) < 3 \<and> response \<noteq> ack_char \<and> writes_of q = [] \<and>
        read_contents start_address len t = Some (Inl e, t1) \<and>
        trace t1 = trace t @ concat (map (\<lambda>d. [Write d, Flush, Read ack_char]) (take 0 ?hdr)) @
          [Write (?hdr ! 0), Flush, Read response] @ q"
      by simp
    then have ?aborted by blast
    then show ?thesis ..
  next
    case r1: (Inr u1)
    with s1 have rx1: "rx t = Some 0x06 # rx t1"
      and tr1: "trace t1 = trace t @ [Write (encode_ascii ''r ''), Flush, Read ack_char]"
      by (auto dest: acknowledged_write_sent_rx acknowledged_write_sent)
    obtain r2 t2 where s2: "acknowledged_write t1 (encode_ascii (str_int start_address)) = (r2, t2)"
      by (cases "acknowledged_write t1 (encode_ascii (str_int start_address))")
    show ?thesis
    proof (cases r2)
      case (Inl e)
      with s2 obtain response q where f: "response \<noteq> ack_char" "writes_of q = []"
        "trace t2 = trace t1 @ [Write (encode_ascii (str_int start_address)), Flush, Read response] @ q"
        by (blast dest: acknowledged_write_failed)
      from s1 r1 s2 Inl have "read_contents start_address len t = Some (Inl e, t2)"
        by (simp add: read_contents_def)
      with f tr1 have "Suc 0 < 3 \<and> response \<noteq> ack_char \<and> writes_of q = [] \<and>
          read_contents start_address len t = Some (Inl e, t2) \<and>
          trace t2 = trace t @ concat (map (\<lambda>d. [Write d, Flush, Read ack_char]) (take (Suc 0) ?hdr)) @
            [Write (?hdr ! Suc 0), Flush, Read response] @ q"
        by simp
      then have ?aborted by blast
      then show ?thesis ..
    next
      case r2: (Inr u2)
      with s2 have rx2: "rx t1 = Some 0x06 # rx t2"
        and tr2: "trace t2 = trace t1 @ [Write (encode_ascii (str_int start_address)), Flush, Read ack_char]"
        by (auto dest: acknowledged_write_sent_rx acknowledged_write_sent)
      obtain r3 t3 where s3: "acknowledged_write t2 (encode_ascii (str_int len)) = (r3, t3)"
        by (cases "acknowledged_write t2 (encode_ascii (str_int len))")
      show ?thesis
      proof (cases r3)
        case (Inl e)
        with s3 obtain response q where f: "response \<noteq> ack_char" "writes_of q = []"
          "trace t3 = trace t2 @ [Write (encode_ascii (str_int len)), Flush, Read response] @ q"
          by (blast dest: acknowledged_write_failed)
        from s1 r1 s2 r2 s3 Inl have "read_contents start_address len t = Some (Inl e, t3)"
          by (simp add: read_contents_def)
        with f tr1 tr2 have "Suc (Suc 0) < 3 \<and> response \<noteq> ack_char \<and> writes_of q = [] \<and>
            read_contents start_address len t = Some (Inl e, t3) \<and>
            trace t3 = trace t @
              concat (map (\<lambda>d. [Write d, Flush, Read ack_char]) (take (Suc (Suc 0)) ?hdr)) @
              [Write (?hdr ! Suc (Suc 0)), Flush, Read response] @ q"
          by simp
        then have ?aborted by blast
        then show ?thesis ..
      next
        case (Inr u3)
        with s3 have "rx t2 = Some 0x06 # rx t3"
          by (auto dest: acknowledged_write_sent_rx)
        with rx1 rx2 have rx: "rx t = Some 0x06 # Some 0x06 # Some 0x06 # rx t3"
          by simp
        from rx read_contents_acked [OF rx] have ?entered
          by blast
        then show ?thesis ..
      qed
    qed
  qed
qed

lemma read_contents_received:
  assumes "read_contents start_address len t = Some (Inr content, t')"
  shows "\<exists>q. writes_of q = [] \<and>
     trace t' = trace t @
       [Write (encode_ascii ''r ''), Flush, Read ack_char,
        Write (encode_ascii (str_int start_address)), Flush, Read ack_char,
        Write (encode_ascii (str_int len)), Flush, Read ack_char] @ q"
proof -
  from read_contents_header [of t start_address len] assms
  obtain r where "read_loop (t\<lparr>rx := r,
        trace := trace t @
          [Write (encode_ascii ''r ''), Flush, Read ack_char,
           Write (encode_ascii (str_int start_address)), Flush, Read ack_char,
           Write (encode_ascii (str_int len)), Flush, Read ack_char]\<rparr>) [] = Some (Inr content, t')"
    by auto
  from read_loop_quiet [OF this] show ?thesis
    by auto
qed

lemma write_file_example:
  "write_file (\<lambda>p. None) (Stream \<lparr>buf = [0x41], pos = 0\<rparr>) 16
     \<lparr>rx = map Some [0x06, 0x06, 0x06, 0x06, 0x31, 0x0A], trace = []\<rparr> =
   (Inr (), Stream \<lparr>buf = [0x41], pos = 1\<rparr>,
    \<lparr>rx = [],
     trace = [Write [0x77, 0x20], Flush, Read [0x06], Write [0x31, 0x36], Flush, Read [0x06],
              Write [0x41], Flush, Read [0x06], Write [0x04], Flush, Read [0x06],
              ReadLine [0x31, 0x0A]]\<rparr>)"
  by (simp add: write_file_def acknowledged_write_ack read_raw_content_def io_read_def
      file_str_def escape_byte_def esc_char_def end_char_def ser_readline_eq newline_byte_def
      py_int_1 encode_ascii_def str_int_def digits.simps)

lemma read_contents_example:
  "read_contents 0 1
     \<lparr>rx = map Some [0x06, 0x06, 0x06, 0x41, 0x04, 0x31, 0x0A], trace = []\<rparr> =
   Some (Inr [0x41],
    \<lparr>rx = [],
     trace = [Write [0x72, 0x20], Flush, Read [0x06], Write [0x30], Flush, Read [0x06],
              Write [0x31], Flush, Read [0x06],
              Read [0x41], Read [0x04], ReadLine [0x31, 0x0A]]\<rparr>)"
  by (simp add: read_contents_def acknowledged_write_ack read_loop.simps ser_read_def
      escape_byte_def esc_char_def end_char_def ser_readline_eq newline_byte_def
      py_int_1 encode_ascii_def str_int_def digits.simps)

lemma read_loop_example:
  "read_loop \<lparr>rx = map Some [0x04, 0x31, 0x0A], trace = []\<rparr> [0x41] =
   Some (Inr [0x41], \<lparr>rx = [], trace = [Read [0x04], ReadLine [0x31, 0x0A]]\<rparr>)"
  by (simp add: read_loop_end newline_byte_def py_int_1 escape_byte_def esc_char_def end_char_def)

text \<open>
  Claim C1, as amended. Every chunk handed to \<open>acknowledged_write\<close> goes out in one
  \<^verbatim>\<open>write\<close> and is acknowledged before the next chunk is written, so at most one
  chunk is unacknowledged at any time. The payload bytes and \<open>END\<close> are chunks of one
  byte; the command token (two bytes) and the decimal texts of the address and of the
  length are each one chunk with one acknowledgement, not one per byte. For a write the
  log of a successful frame is given event by event. For a read the three sends of the
  header are given event by event whether or not the loop that follows returns: either
  all three are acknowledged and the loop starts from that log, or the read stops at the
  first send that is not acknowledged; the loop itself only reads.
\<close>

theorem frame_chunks_acknowledged:
  "(write_file fs file start_address t = (res, file', t') \<longrightarrow>
      (\<exists>ev. trace t' = trace t @ ev \<and>
         chunks_acked (\<lambda>d. d = encode_ascii ''w '' \<or> d = encode_ascii (str_int start_address) \<or>
                            length d = 1) ev)) \<and>
   (write_file fs file start_address t = (Inr (), file', t') \<longrightarrow>
      (\<exists>raw_content response. read_raw_content fs file = (Inr raw_content, file') \<and>
         trace t' = trace t @
           [Write (encode_ascii ''w ''), Flush, Read ack_char,
            Write (encode_ascii (str_int start_address)), Flush, Read ack_char] @
           concat (map (\<lambda>b. [Write [b], Flush, Read ack_char]) (escape_file_contents raw_content)) @
           [Write end_char, Flush, Read ack_char, ReadLine response])) \<and>
   (read_contents start_address len t = Some (res', t'') \<longrightarrow>
      (\<exists>ev. trace t'' = trace t @ ev \<and>
         chunks_acked (\<lambda>d. d = encode_ascii ''r '' \<or> d = encode_ascii (str_int start_address) \<or>
                            d = encode_ascii (str_int len)) ev)) \<and>
   (rx t = Some 0x06 # Some 0x06 # Some 0x06 # r \<longrightarrow>
      read_contents start_address len t =
        read_loop (t\<lparr>rx := r,
           trace := trace t @
             [Write (encode_ascii ''r ''), Flush, Read ack_char,
              Write (encode_ascii (str_int start_address)), Flush, Read ack_char,
              Write (encode_ascii (str_int len)), Flush, Read ack_char]\<rparr>) []) \<and>
   ((\<exists>r. rx t = Some 0x06 # Some 0x06 # Some 0x06 # r \<and>
       read_contents start_address len t =
         read_loop (t\<lparr>rx := r,
            trace := trace t @
              [Write (encode_ascii ''r ''), Flush, Read ack_char,
               Write (encode_ascii (str_int start_address)), Flush, Read ack_char,
               Write (encode_ascii (str_int len)), Flush, Read ack_char]\<rparr>) []) \<or>
    (\<exists>k e t' response q. k < 3 \<and> response \<noteq> ack_char \<and> writes_of q = [] \<and>
       read_contents start_address len t = Some (Inl e, t') \<and>
       trace t' = trace t @
         concat (map (\<lambda>d. [Write d, Flush, Read ack_char])
           (take k [encode_ascii ''r '', encode_ascii (str_int start_address),
                    encode_ascii (str_int len)])) @
         [Write ([encode_ascii ''r '', encode_ascii (str_int start_address),
                  encode_ascii (str_int len)] ! k), Flush, Read response] @ q)) \<and>
   (read_loop t content = Some rt \<longrightarrow>
      (\<exists>q. trace (snd rt) = trace t @ q \<and> writes_of q = [])) \<and>
   (read_contents start_address len t = Some (Inr eeprom_content, t'') \<longrightarrow>
      (\<exists>q. writes_of q = [] \<and>
         trace t'' = trace t @
           [Write (encode_ascii ''r ''), Flush, Read ack_char,
            Write (encode_ascii (str_int start_address)), Flush, Read ack_char,
            Write (encode_ascii (str_int len)), Flush, Read ack_char] @ q))"
proof (intro conjI impI)
  assume "write_file fs file start_address t = (res, file', t')"
  then show "\<exists>ev. trace t' = trace t @ ev \<and>
      chunks_acked (\<lambda>d. d = encode_ascii ''w '' \<or> d = encode_ascii (str_int start_address) \<or>
                         length d = 1) ev"
    by (rule write_file_chunks)
next
  assume "write_file fs file start_address t = (Inr (), file', t')"
  then show "\<exists>raw_content response. read_raw_content fs file = (Inr raw_content, file') \<and>
      trace t' = trace t @
        [Write (encode_ascii ''w ''), Flush, Read ack_char,
         Write (encode_ascii (str_int start_address)), Flush, Read ack_char] @
        concat (map (\<lambda>b. [Write [b], Flush, Read ack_char]) (escape_file_contents raw_content)) @
        [Write end_char, Flush, Read ack_char, ReadLine response]"
    by (rule write_file_sent)
next
  assume "read_contents start_address len t = Some (res', t'')"
  then show "\<exists>ev. trace t'' = trace t @ ev \<and>
      chunks_acked (\<lambda>d. d = encode_ascii ''r '' \<or> d = encode_ascii (str_int start_address) \<or>
                         d = encode_ascii (str_int len)) ev"
    by (rule read_contents_chunks)
next
  assume "rx t = Some 0x06 # Some 0x06 # Some 0x06 # r"
  then show "read_contents start_address len t =
      read_loop (t\<lparr>rx := r,
         trace := trace t @
           [Write (encode_ascii ''r ''), Flush, Read ack_char,
            Write (encode_ascii (str_int start_address)), Flush, Read ack_char,
            Write (encode_ascii (str_int len)), Flush, Read ack_char]\<rparr>) []"
    by (rule read_contents_acked)
next
  show "(\<exists>r. rx t = Some 0x06 # Some 0x06 # Some 0x06 # r \<and>
       read_contents start_address len t =
         read_loop (t\<lparr>rx := r,
            trace := trace t @
              [Write (encode_ascii ''r ''), Flush, Read ack_char,
               Write (encode_ascii (str_int start_address)), Flush, Read ack_char,
               Write (encode_ascii (str_int len)), Flush, Read ack_char]\<rparr>) []) \<or>
    (\<exists>k e t' response q. k < 3 \<and> response \<noteq> ack_char \<and> writes_of q = [] \<and>
       read_contents start_address len t = Some (Inl e, t') \<and>
       trace t' = trace t @
         concat (map (\<lambda>d. [Write d, Flush, Read ack_char])
           (take k [encode_ascii ''r '', encode_ascii (str_int start_address),
                    encode_ascii (str_int len)])) @
         [Write ([encode_ascii ''r '', encode_ascii (str_int start_address),
                  encode_ascii (str_int len)] ! k), Flush, Read response] @ q)"
    by (rule read_contents_header)
next
  assume "read_loop t content = Some rt"
  then show "\<exists>q. trace (snd rt) = trace t @ q \<and> writes_of q = []"
    by (rule read_loop_quiet)
next
  assume "read_contents start_address len t = Some (Inr eeprom_content, t'')"
  then show "\<exists>q. writes_of q = [] \<and>
      trace t'' = trace t @
        [Write (encode_ascii ''r ''), Flush, Read ack_char,
         Write (encode_ascii (str_int start_address)), Flush, Read ack_char,
         Write (encode_ascii (str_int len)), Flush, Read ack_char] @ q"
    by (rule read_contents_received)
qed

theorem frame_chunks_acknowledged_witness:
  "chunks_acked (\<lambda>d. d = encode_ascii ''w '' \<or> d = encode_ascii (str_int 16) \<or> length d = 1)
     [Write [0x77, 0x20], Flush, Read [0x06], Write [0x31, 0x36], Flush, Read [0x06],
      Write [0x41], Flush, Read [0x06], Write [0x04], Flush, Read [0x06], ReadLine [0x31, 0x0A]] \<and>
   read_raw_content (\<lambda>p. None) (Stream \<lparr>buf = [0x41], pos = 0\<rparr>) =
     (Inr [0x41], Stream \<lparr>buf = [0x41], pos = 1\<rparr>) \<and>
   chunks_acked (\<lambda>d. d = encode_ascii ''r '' \<or> d = encode_ascii (str_int 0) \<or>
                      d = encode_ascii (str_int 1))
     [Write [0x72, 0x20], Flush, Read [0x06], Write [0x30], Flush, Read [0x06],
      Write [0x31], Flush, Read [0x06], Read [0x41], Read [0x04], ReadLine [0x31, 0x0A]] \<and>
   read_contents 0 1 \<lparr>rx = [Some 0x06, Some 0x06, Some 0x06], trace = []\<rparr> =
     read_loop \<lparr>rx = [],
        trace = [Write [0x72, 0x20], Flush, Read [0x06], Write [0x30], Flush, Read [0x06],
                 Write [0x31], Flush, Read [0x06]]\<rparr> [] \<and>
   (\<exists>q. writes_of q = [] \<and>
      [Write [0x72, 0x20], Flush, Read [0x06], Write [0x30], Flush, Read [0x06],
       Write [0x31], Flush, Read [0x06], Read [0x41], Read [0x04], ReadLine [0x31, 0x0A]] =
      [Write [0x72, 0x20], Flush, Read [0x06], Write [0x30], Flush, Read [0x06],
       Write [0x31], Flush, Read [0x06]] @ q) \<and>
   (\<exists>q. [Read [0x04], ReadLine [0x31, 0x0A]] = q \<and> writes_of q = [])"
proof (intro conjI)
  show "chunks_acked (\<lambda>d. d = encode_ascii ''w '' \<or> d = encode_ascii (str_int 16) \<or> length d = 1)
     [Write [0x77, 0x20], Flush, Read [0x06], Write [0x31, 0x36], Flush, Read [0x06],
      Write [0x41], Flush, Read [0x06], Write [0x04], Flush, Read [0x06], ReadLine [0x31, 0x0A]]"
    using frame_chunks_acknowledged [THEN conjunct1, rule_format, OF write_file_example]
    by simp
  show "read_raw_content (\<lambda>p. None) (Stream \<lparr>buf = [0x41], pos = 0\<rparr>) =
     (Inr [0x41], Stream \<lparr>buf = [0x41], pos = 1\<rparr>)"
    using frame_chunks_acknowledged [THEN conjunct2, THEN conjunct1, rule_format,
        OF write_file_example]
    by (auto simp: read_raw_content_def io_read_def)
  show "chunks_acked (\<lambda>d. d = encode_ascii ''r '' \<or> d = encode_ascii (str_int 0) \<or>
                      d = encode_ascii (str_int 1))
     [Write [0x72, 0x20], Flush, Read [0x06], Write [0x30], Flush, Read [0x06],
      Write [0x31], Flush, Read [0x06], Read [0x41], Read [0x04], ReadLine [0x31, 0x0A]]"
    using frame_chunks_acknowledged [THEN conjunct2, THEN conjunct2, THEN conjunct1,
        rule_format, OF read_contents_example]
    by simp
  show "read_contents 0 1 \<lparr>rx = [Some 0x06, Some 0x06, Some 0x06], trace = []\<rparr> =
     read_loop \<lparr>rx = [],
        trace = [Write [0x72, 0x20], Flush, Read [0x06], Write [0x30], Flush, Read [0x06],
                 Write [0x31], Flush, Read [0x06]]\<rparr> []"
    using frame_chunks_acknowledged [THEN conjunct2, THEN conjunct2, THEN conjunct2,
        THEN conjunct1, rule_format,
        where t = "\<lparr>rx = [Some 0x06, Some 0x06, Some 0x06], trace = []\<rparr>" and r = "[]"
          and start_address = 0 and len = 1]
    by (simp add: encode_ascii_def str_int_def digits.simps ack_char_def)
  show "\<exists>q. writes_of q = [] \<and>
      [Write [0x72, 0x20], Flush, Read [0x06], Write [0x30], Flush, Read [0x06],
       Write [0x31], Flush, Read [0x06], Read [0x41], Read [0x04], ReadLine [0x31, 0x0A]] =
      [Write [0x72, 0x20], Flush, Read [0x06], Write [0x30], Flush, Read [0x06],
       Write [0x31], Flush, Read [0x06]] @ q"
    using frame_chunks_acknowledged [THEN conjunct2, THEN conjunct2, THEN conjunct2,
        THEN conjunct2, THEN conjunct2, THEN conjunct2, rule_format, OF read_contents_example]
    by (simp add: encode_ascii_def str_int_def digits.simps ack_char_def)
  show "\<exists>q. [Read [0x04], ReadLine [0x31, 0x0A]] = q \<and> writes_of q = []"
    using frame_chunks_acknowledged [THEN conjunct2, THEN conjunct2, THEN conjunct2,
        THEN conjunct2, THEN conjunct2, THEN conjunct1, rule_format, OF read_loop_example]
    by simp
qed

text \<open>
  The claim as it was stated fails on every write: the command token and the address
  \<open>16\<close> go out as chunks of two bytes.
\<close>

theorem command_token_chunk_counterexample:
  "writes_of (trace (snd (snd (write_file (\<lambda>p. None) (Stream \<lparr>buf = [0x41], pos = 0\<rparr>) 16
      \<lparr>rx = map Some [0x06, 0x06, 0x06, 0x06, 0x31, 0x0A], trace = []\<rparr>)))) =
     [[0x77, 0x20], [0x31, 0x36], [0x41], [0x04]] \<and>
   \<not> single_byte_writes (trace (snd (snd (write_file (\<lambda>p. None)
      (Stream \<lparr>buf = [0x41], pos = 0\<rparr>) 16
      \<lparr>rx = map Some [0x06, 0x06, 0x06, 0x06, 0x31, 0x0A], trace = []\<rparr>))))"
  unfolding write_file_example by (simp add: single_byte_writes_def)

subsection \<open>\<open>format_hex\<close>\<close>

lemma format_hex_loop_append:
  "format_hex_loop i (xs @ ys) s = format_hex_loop (i + length xs) ys (format_hex_loop i xs s)"
  by (induction xs arbitrary: i s) simp_all

lemma format_hex_loop_plain:
  "(\<forall>j<length xs. (i + j) mod 4 \<noteq> 0) \<Longrightarrow>
   format_hex_loop i xs s = s @ concat (map byte_fmt xs)"
proof (induction xs arbitrary: i s)
  case Nil
  then show ?case by simp
next
  case (Cons x xs)
  from Cons.prems have "(i + 0) mod 4 \<noteq> 0"
    by blast
  then have i4: "i mod 4 \<noteq> 0"
    by simp
  then have i8: "i mod 8 \<noteq> 0"
    by presburger
  have "\<forall>j<length xs. (Suc i + j) mod 4 \<noteq> 0"
  proof (intro allI impI)
    fix j assume "j < length xs"
    then have "Suc j < length (x # xs)" by simp
    with Cons.prems have "(i + Suc j) mod 4 \<noteq> 0" by blast
    then show "(Suc i + j) mod 4 \<noteq> 0" by simp
  qed
  from Cons.IH [OF this] i4 i8 show ?case
    by (simp add: chunk_size_def)
qed

lemma format_hex_loop_row:
  assumes "i mod 8 = 0" and "row \<noteq> []" and "length row \<le> 8"
  shows "format_hex_loop i row s = s @ [newline] @ hex_row i row"
proof -
  from assms(2) obtain b rest where row: "row = b # rest"
    by (cases row) auto
  let ?a = "take 3 rest" and ?c = "drop 3 rest"
  have first: "format_hex_loop i row s =
      format_hex_loop (Suc i) rest (s @ [newline] @ address_fmt i @ byte_fmt b)"
    using assms(1) row by (simp add: chunk_size_def)
  have rest: "rest = ?a @ ?c"
    by simp
  have plain_a: "format_hex_loop (Suc i) ?a s' = s' @ concat (map byte_fmt ?a)" for s'
  proof (rule format_hex_loop_plain, intro allI impI)
    fix j assume "j < length ?a"
    then have "j < 3" by simp
    with assms(1) show "(Suc i + j) mod 4 \<noteq> 0" by presburger
  qed
  show ?thesis
  proof (cases ?c)
    case Nil
    then have short: "length rest \<le> 3" and a: "?a = rest"
      by simp_all
    from first plain_a [of "s @ [newline] @ address_fmt i @ byte_fmt b"] a
    have "format_hex_loop i row s =
        s @ [newline] @ address_fmt i @ byte_fmt b @ concat (map byte_fmt rest)"
      by simp
    with row short show ?thesis
      by (simp add: hex_row_def)
  next
    case (Cons x tail)
    then have "length (drop 3 rest) = Suc (length tail)"
      by simp
    then have len: "length rest = length tail + 4"
      by simp
    then have long: "3 < length rest" and a: "length ?a = 3"
      by simp_all
    from len assms(3) row have tail: "length tail \<le> 3"
      by simp
    have e1: "format_hex_loop (Suc i) (?a @ (x # tail)) s' =
        format_hex_loop (Suc i + length ?a) (x # tail) (format_hex_loop (Suc i) ?a s')" for s'
      by (rule format_hex_loop_append)
    have e2: "Suc i + length ?a = i + 4"
      using a by simp
    have e3: "?a @ (x # tail) = rest"
      using Cons by (metis append_take_drop_id)
    have to_second: "format_hex_loop (Suc i) rest s' =
        format_hex_loop (i + 4) (x # tail) (s' @ concat (map byte_fmt ?a))" for s'
      using e1 [of s', unfolded e2 e3] plain_a [of s'] by (simp del: format_hex_loop.simps)
    have m: "(i + 4) mod 8 \<noteq> 0" "(i + 4) mod 4 = 0"
      using assms(1) by presburger+
    have second: "format_hex_loop (i + 4) (x # tail) s' =
        format_hex_loop (Suc (i + 4)) tail (s' @ '' '' @ byte_fmt x)" for s'
      using m by (simp add: chunk_size_def)
    have plain_c: "format_hex_loop (Suc (i + 4)) tail s' = s' @ concat (map byte_fmt tail)" for s'
    proof (rule format_hex_loop_plain, intro allI impI)
      fix j assume "j < length tail"
      with tail have "j < 3" by simp
      with assms(1) show "(Suc (i + 4) + j) mod 4 \<noteq> 0" by presburger
    qed
    have "format_hex_loop (Suc i) rest s' =
        s' @ concat (map byte_fmt ?a) @ '' '' @ byte_fmt x @ concat (map byte_fmt tail)" for s'
      by (simp only: to_second second plain_c append_assoc)
    with first have "format_hex_loop i row s =
        s @ [newline] @ address_fmt i @ byte_fmt b @ concat (map byte_fmt ?a) @
        '' '' @ concat (map byte_fmt ?c)"
      using Cons by simp
    moreover from row long have "take 4 row = b # ?a" "drop 4 row = ?c" "4 < length row"
      by (simp_all add: numeral_eq_Suc)
    ultimately show ?thesis
      by (simp add: hex_row_def)
  qed
qed

lemma format_hex_loop_rows:
  "a mod 8 = 0 \<Longrightarrow>
   format_hex_loop a bs s = s @ concat (map (\<lambda>row. newline # row) (hex_rows a bs))"
proof (induction a bs arbitrary: s rule: hex_rows.induct)
  case (1 a bs)
  show ?case
  proof (cases "bs = []")
    case True
    then show ?thesis by (simp add: hex_rows.simps)
  next
    case False
    then have row: "take 8 bs \<noteq> []" "length (take 8 bs) \<le> 8"
      by simp_all
    from False have len: "a + length (take 8 bs) = a + 8 \<or> drop 8 bs = []"
      by (cases "8 \<le> length bs") auto
    from "1.prems" have a8: "(a + 8) mod 8 = 0"
      by simp
    have "format_hex_loop a (take 8 bs @ drop 8 bs) s =
        format_hex_loop (a + length (take 8 bs)) (drop 8 bs) (format_hex_loop a (take 8 bs) s)"
      by (rule format_hex_loop_append)
    also have "\<dots> = format_hex_loop (a + 8) (drop 8 bs) (format_hex_loop a (take 8 bs) s)"
      using len by (auto simp del: format_hex_loop.simps) (simp add: hex_rows.simps)
    also have "\<dots> = format_hex_loop (a + 8) (drop 8 bs) (s @ [newline] @ hex_row a (take 8 bs))"
      by (simp only: format_hex_loop_row [OF "1.prems" row])
    also have "\<dots> = (s @ [newline] @ hex_row a (take 8 bs)) @
        concat (map (\<lambda>row. newline # row) (hex_rows (a + 8) (drop 8 bs)))"
      by (rule "1.IH" [OF False a8])
    finally show ?thesis
      using False by (simp add: hex_rows.simps [of a bs])
  qed
qed

lemma split_from_piece:
  "sep \<notin> set r \<Longrightarrow> split_from sep piece (r @ rest) = split_from sep (piece @ r) rest"
  by (induction r arbitrary: piece) auto

lemma split_from_rows:
  "(\<forall>r\<in>set rows. sep \<notin> set r) \<Longrightarrow>
   split_from sep piece (concat (map (\<lambda>row. sep # row) rows)) = piece # rows"
proof (induction rows arbitrary: piece)
  case Nil
  then show ?case by simp
next
  case (Cons r rows)
  then have "sep \<notin> set r" and rest: "\<forall>r\<in>set rows. sep \<notin> set r"
    by simp_all
  have "split_from sep piece (concat (map (\<lambda>row. sep # row) (r # rows))) =
      piece # split_from sep [] (r @ concat (map (\<lambda>row. sep # row) rows))"
    by simp
  also have "\<dots> = piece # split_from sep ([] @ r) (concat (map (\<lambda>row. sep # row) rows))"
    using \<open>sep \<notin> set r\<close> by (simp add: split_from_piece)
  also have "\<dots> = piece # r # rows"
    using Cons.IH [OF rest] by simp
  finally show ?case .
qed

lemma hex_upper_chars: "set (hex_upper n) \<subseteq> set ''0123456789ABCDEF''"
proof -
  define D where "D = ''0123456789ABCDEF''"
  have len: "length D = 16"
    by (simp add: D_def)
  have step: "hex_upper n = (if n < 16 then [D ! n] else hex_upper (n div 16) @ [D ! (n mod 16)])" for n
    unfolding D_def by (rule hex_upper.simps)
  have "set (hex_upper n) \<subseteq> set D"
  proof (induction n rule: hex_upper.induct)
    case (1 n)
    show ?case
    proof (cases "n < 16")
      case True
      with len have "D ! n \<in> set D"
        by (intro nth_mem) simp
      with True show ?thesis
        by (subst step) (simp del: hex_upper.simps)
    next
      case False
      from len have "D ! (n mod 16) \<in> set D"
        by (intro nth_mem) simp
      with False "1.IH" show ?thesis
        by (subst step) (simp del: hex_upper.simps)
    qed
  qed
  then show ?thesis
    by (simp only: D_def)
qed

lemma newline_not_hex: "newline \<notin> set (hex_upper n)"
  using hex_upper_chars [of n] by (auto simp: newline_def)

lemma newline_not_byte_fmt: "newline \<notin> set (byte_fmt b)"
  using newline_not_hex by (auto simp: byte_fmt_def fmt_02X_def zero_pad_def newline_def)

lemma newline_not_address_fmt: "newline \<notin> set (address_fmt a)"
  using newline_not_hex by (auto simp: address_fmt_def fmt_04X_def zero_pad_def newline_def)

lemma newline_not_hex_row: "newline \<notin> set (hex_row a row)"
  using newline_not_byte_fmt newline_not_address_fmt
  by (auto simp: hex_row_def newline_def)

lemma newline_not_hex_rows: "\<forall>r\<in>set (hex_rows a bs). newline \<notin> set r"
proof (induction a bs rule: hex_rows.induct)
  case (1 a bs)
  then show ?case
    by (subst hex_rows.simps) (auto simp: newline_not_hex_row)
qed

lemma length_hex_rows: "length (hex_rows a bs) = (length bs + 7) div 8"
proof (induction a bs rule: hex_rows.induct)
  case (1 a bs)
  show ?case
  proof (cases "bs = []")
    case True
    then show ?thesis by (simp add: hex_rows.simps)
  next
    case False
    with "1.IH" have rows: "length (hex_rows a bs) = Suc ((length bs - 8 + 7) div 8)"
      by (simp add: hex_rows.simps [of a bs])
    show ?thesis
    proof (cases "8 \<le> length bs")
      case True
      then obtain m where m: "length bs = m + 8"
        by (metis le_add_diff_inverse2)
      then have "(length bs + 7) div 8 = Suc ((m + 7) div 8)"
        by simp
      with rows m show ?thesis by simp
    next
      case short: False
      with False have "8 * 1 \<le> length bs + 7" and "length bs + 7 < 8 * Suc 1"
        by (simp_all add: Suc_le_eq)
      then have "(length bs + 7) div 8 = 1"
        by (rule div_nat_eqI)
      with rows short show ?thesis by simp
    qed
  qed
qed

lemma format_hex_eq: "format_hex in_bytes = [] # hex_rows 0 in_bytes"
  using format_hex_loop_rows [of 0 in_bytes "[]"] newline_not_hex_rows [of 0 in_bytes]
  by (simp add: format_hex_def split_str_def split_from_rows)

lemma hex_rows_example:
  "hex_rows 0 (encode_ascii ''0123456789ABCDEF'') =
     [''0x0000:    30 31 32 33  34 35 36 37 '', ''0x0008:    38 39 41 42  43 44 45 46 '']"
  by (simp add: hex_rows.simps hex_row_def address_fmt_def byte_fmt_def fmt_02X_def fmt_04X_def
      zero_pad_def encode_ascii_def hex_upper.simps numeral_3_eq_3)

text \<open>
  Claim C8, as amended. \<open>format_hex\<close> returns an empty first element and then exactly one
  line per 8 input bytes, the last one possibly shorter: each line starts with \<open>0x\<close>, the
  address of its first byte in at least four hexadecimal digits, a colon and four spaces,
  followed by the bytes as two hexadecimal digits and a space each, with one more space
  between the two blocks of 4.
\<close>

theorem format_hex_rows:
  "format_hex in_bytes = [] # hex_rows 0 in_bytes \<and>
   length (hex_rows 0 in_bytes) = (length in_bytes + 7) div 8 \<and>
   4 \<le> length (fmt_04X a)"
  by (simp add: format_hex_eq length_hex_rows fmt_04X_def zero_pad_def)

theorem format_hex_rows_witness:
  "format_hex (encode_ascii ''0123456789ABCDEF'') =
     ['''', ''0x0000:    30 31 32 33  34 35 36 37 '', ''0x0008:    38 39 41 42  43 44 45 46 '']"
  using format_hex_rows [of "encode_ascii ''0123456789ABCDEF''" 0]
  by (simp only: hex_rows_example)

text \<open>
  The claim as it was stated fails on its own example: the result has three elements, the
  first one empty, and the empty input gives one (empty) element.
\<close>

theorem format_hex_leading_line_counterexample:
  "length (format_hex (encode_ascii ''0123456789ABCDEF'')) = 3 \<and>
   hd (format_hex (encode_ascii ''0123456789ABCDEF'')) = '''' \<and>
   format_hex [] = ['''']"
  by (simp add: format_hex_eq hex_rows_example hex_rows.simps [of 0 "[]"])

end
